theory Spec2Isabelle
  imports Complex_Main
begin

section \<open>JavaScript numbers\<close>

text \<open>
  The plugin computes with JavaScript Numbers, that is IEEE-754 binary64 values. A Number
  is modelled by its value: the three special values, negative zero, and a finite value
  given as a rational (\<open>Fin 0\<close> is positive zero). Every arithmetic operation computes the
  exact rational result and rounds it to the nearest binary64 value, ties to even.
\<close>

datatype jsnum = NaN | PosInf | NegInf | NegZero | Fin rat

text \<open>The powers of two and ten with an integer exponent.\<close>

definition pow2 :: "int \<Rightarrow> rat" where
  "pow2 e = (if 0 \<le> e then 2 ^ nat e else 1 / 2 ^ nat (- e))"

definition pow10 :: "int \<Rightarrow> rat" where
  "pow10 e = (if 0 \<le> e then 10 ^ nat e else 1 / 10 ^ nat (- e))"

text \<open>The number of binary digits of a natural number.\<close>

fun bitlen :: "nat \<Rightarrow> nat" where
  "bitlen n = (if n = 0 then 0 else Suc (bitlen (n div 2)))"

declare bitlen.simps [simp del]

text \<open>
  \<open>ilog2 m\<close> is the integer \<open>e\<close> with \<open>2 ^ e \<le> m < 2 ^ (e + 1)\<close>, for \<open>0 < m\<close>: one less than
  the number of binary digits of the integer part of \<open>m \<ge> 1\<close>, and for \<open>m < 1\<close> the least \<open>j\<close>
  with \<open>1 / m \<le> 2 ^ j\<close>, negated.
\<close>

definition ilog2 :: "rat \<Rightarrow> int" where
  "ilog2 m =
     (if 1 \<le> m then int (bitlen (nat \<lfloor>m\<rfloor>)) - 1
      else - int (bitlen (nat (\<lceil>1 / m\<rceil> - 1))))"

definition round_half_even :: "rat \<Rightarrow> int" where
  "round_half_even q =
     (let f = \<lfloor>q\<rfloor>; r = q - of_int f
      in if r < 1 / 2 then f
         else if 1 / 2 < r then f + 1
         else if even f then f else f + 1)"

text \<open>
  The binary64 value nearest to a positive rational: 53 significant bits, the exponent not
  below that of the subnormal numbers.
\<close>

definition round_mag :: "rat \<Rightarrow> rat" where
  "round_mag m =
     (let e = max (ilog2 m) (- 1022);
          ulp = pow2 (e - 52)
      in of_int (round_half_even (m / ulp)) * ulp)"

definition js_zero :: "bool \<Rightarrow> jsnum" where
  "js_zero neg = (if neg then NegZero else Fin 0)"

definition js_inf :: "bool \<Rightarrow> jsnum" where
  "js_inf neg = (if neg then NegInf else PosInf)"

text \<open>\<open>fl neg m\<close> is the Number for the exact result of sign \<open>neg\<close> and magnitude \<open>m \<ge> 0\<close>.\<close>

definition fl :: "bool \<Rightarrow> rat \<Rightarrow> jsnum" where
  "fl neg m =
     (if m = 0 then js_zero neg
      else let r = round_mag m
           in if pow2 1024 \<le> r then js_inf neg
              else if r = 0 then js_zero neg
              else Fin (if neg then - r else r))"

fun is_neg :: "jsnum \<Rightarrow> bool" where
  "is_neg NaN = False"
| "is_neg PosInf = False"
| "is_neg NegInf = True"
| "is_neg NegZero = True"
| "is_neg (Fin q) = (q < 0)"

fun is_zero :: "jsnum \<Rightarrow> bool" where
  "is_zero NegZero = True"
| "is_zero (Fin q) = (q = 0)"
| "is_zero _ = False"

fun is_inf :: "jsnum \<Rightarrow> bool" where
  "is_inf PosInf = True"
| "is_inf NegInf = True"
| "is_inf _ = False"

fun mag :: "jsnum \<Rightarrow> rat" where
  "mag (Fin q) = \<bar>q\<bar>"
| "mag _ = 0"

text \<open>\<open>a * b\<close>\<close>

definition js_mul :: "jsnum \<Rightarrow> jsnum \<Rightarrow> jsnum" where
  "js_mul a b =
     (if a = NaN \<or> b = NaN then NaN
      else if (is_inf a \<and> is_zero b) \<or> (is_zero a \<and> is_inf b) then NaN
      else if is_inf a \<or> is_inf b then js_inf (is_neg a \<noteq> is_neg b)
      else fl (is_neg a \<noteq> is_neg b) (mag a * mag b))"

text \<open>\<open>a / b\<close>\<close>

definition js_div :: "jsnum \<Rightarrow> jsnum \<Rightarrow> jsnum" where
  "js_div a b =
     (if a = NaN \<or> b = NaN then NaN
      else if (is_inf a \<and> is_inf b) \<or> (is_zero a \<and> is_zero b) then NaN
      else if is_inf a \<or> is_zero b then js_inf (is_neg a \<noteq> is_neg b)
      else if is_inf b then js_zero (is_neg a \<noteq> is_neg b)
      else fl (is_neg a \<noteq> is_neg b) (mag a / mag b))"

text \<open>\<open>Math.abs(a)\<close>\<close>

fun js_abs :: "jsnum \<Rightarrow> jsnum" where
  "js_abs NaN = NaN"
| "js_abs PosInf = PosInf"
| "js_abs NegInf = PosInf"
| "js_abs NegZero = Fin 0"
| "js_abs (Fin q) = Fin \<bar>q\<bar>"

text \<open>Comparison: \<open>rank\<close> orders the infinities around the finite values.\<close>

fun rank :: "jsnum \<Rightarrow> int" where
  "rank NegInf = - 1"
| "rank PosInf = 1"
| "rank _ = 0"

fun fin_val :: "jsnum \<Rightarrow> rat" where
  "fin_val (Fin q) = q"
| "fin_val _ = 0"

text \<open>\<open>a < b\<close> and \<open>a <= b\<close>; both are false when an operand is \<open>NaN\<close>.\<close>

definition js_lt :: "jsnum \<Rightarrow> jsnum \<Rightarrow> bool" where
  "js_lt a b \<longleftrightarrow>
     a \<noteq> NaN \<and> b \<noteq> NaN \<and>
     (rank a < rank b \<or> (rank a = rank b \<and> fin_val a < fin_val b))"

definition js_le :: "jsnum \<Rightarrow> jsnum \<Rightarrow> bool" where
  "js_le a b \<longleftrightarrow> a \<noteq> NaN \<and> b \<noteq> NaN \<and> \<not> js_lt b a"

text \<open>ToBoolean of a Number: \<open>NaN\<close> and both zeros are falsy.\<close>

definition truthy :: "jsnum \<Rightarrow> bool" where
  "truthy a \<longleftrightarrow> a \<noteq> NaN \<and> \<not> is_zero a"

section \<open>Numbers and strings\<close>

datatype error = RangeError | TypeError

definition digit_char :: "nat \<Rightarrow> char" where
  "digit_char d = ''0123456789'' ! d"

fun nat_digits :: "nat \<Rightarrow> string" where
  "nat_digits n =
     (if n < 10 then [digit_char n] else nat_digits (n div 10) @ [digit_char (n mod 10)])"

declare nat_digits.simps [simp del]

text \<open>The number of decimal digits of a natural number.\<close>

fun declen :: "nat \<Rightarrow> nat" where
  "declen n = (if n = 0 then 0 else Suc (declen (n div 10)))"

declare declen.simps [simp del]

text \<open>\<open>ilog10 m\<close> is the integer \<open>e\<close> with \<open>10 ^ e \<le> m < 10 ^ (e + 1)\<close>, for \<open>0 < m\<close>.\<close>

definition ilog10 :: "rat \<Rightarrow> int" where
  "ilog10 m =
     (if 1 \<le> m then int (declen (nat \<lfloor>m\<rfloor>)) - 1
      else - int (declen (nat (\<lceil>1 / m\<rceil> - 1))))"

subsection \<open>Number::toString\<close>

text \<open>
  ECMAScript prints a positive Number \<open>x\<close> from integers \<open>n\<close>, \<open>k\<close>, \<open>s\<close> with
  \<open>10 ^ (k - 1) \<le> s < 10 ^ k\<close>, such that \<open>s * 10 ^ (n - k)\<close> rounds to \<open>x\<close> and \<open>k\<close> is as
  small as possible. \<open>digits_at q k\<close> looks for such an \<open>s\<close> with \<open>k\<close> digits: only the two
  multiples of \<open>10 ^ (n - k)\<close> around \<open>q\<close> can round to \<open>q\<close>, and the nearer one is taken.
\<close>

definition digits_at :: "rat \<Rightarrow> nat \<Rightarrow> (nat \<times> int) option" where
  "digits_at q k =
     (let n0 = ilog10 q + 1;
          u = pow10 (n0 - int k);
          lo = nat \<lfloor>q / u\<rfloor>;
          hi = lo + 1;
          ok_lo = (fl False (of_nat lo * u) = Fin q);
          ok_hi = (fl False (of_nat hi * u) = Fin q);
          d_lo = q - of_nat lo * u;
          d_hi = of_nat hi * u - q
      in if ok_lo \<and> (if ok_hi then d_lo < d_hi \<or> (d_lo = d_hi \<and> even lo) else True)
         then Some (lo, n0)
         else if ok_hi then Some (if hi = 10 ^ k then (10 ^ (k - 1), n0 + 1) else (hi, n0))
         else None)"

fun first_some :: "('a \<Rightarrow> 'b option) \<Rightarrow> 'a list \<Rightarrow> 'b option" where
  "first_some f [] = None"
| "first_some f (x # xs) = (case f x of Some y \<Rightarrow> Some y | None \<Rightarrow> first_some f xs)"

text \<open>
  Seventeen digits identify every binary64 value. A rational that is not a binary64 value
  (no operation of this theory returns one) is printed by its first seventeen digits.
\<close>

definition shortest_digits :: "rat \<Rightarrow> nat \<times> int" where
  "shortest_digits q =
     (case first_some (digits_at q) [1 ..< 18] of
        Some r \<Rightarrow> r
      | None \<Rightarrow> (nat \<lfloor>q / pow10 (ilog10 q - 16)\<rfloor>, ilog10 q + 1))"

definition format_digits :: "nat \<Rightarrow> int \<Rightarrow> string" where
  "format_digits s n =
     (let ds = nat_digits s; k = length ds
      in if int k \<le> n \<and> n \<le> 21 then ds @ replicate (nat (n - int k)) (CHR ''0'')
         else if 0 < n \<and> n \<le> 21 then take (nat n) ds @ ''.'' @ drop (nat n) ds
         else if - 6 < n \<and> n \<le> 0 then ''0.'' @ replicate (nat (- n)) (CHR ''0'') @ ds
         else let e = n - 1;
                  es = (if e < 0 then ''-'' else ''+'') @ nat_digits (nat \<bar>e\<bar>)
              in if k = 1 then ds @ ''e'' @ es
                 else take 1 ds @ ''.'' @ drop 1 ds @ ''e'' @ es)"

fun number_to_string :: "jsnum \<Rightarrow> string" where
  "number_to_string NaN = ''NaN''"
| "number_to_string PosInf = ''Infinity''"
| "number_to_string NegInf = ''-Infinity''"
| "number_to_string NegZero = ''0''"
| "number_to_string (Fin q) =
     (if q = 0 then ''0''
      else (if q < 0 then ''-'' else []) @
           (case shortest_digits \<bar>q\<bar> of (s, n) \<Rightarrow> format_digits s n))"

subsection \<open>Number.prototype.toFixed\<close>

text \<open>ToIntegerOrInfinity; \<open>None\<close> stands for both infinities.\<close>

fun toIntegerOrInfinity :: "jsnum \<Rightarrow> int option" where
  "toIntegerOrInfinity NaN = Some 0"
| "toIntegerOrInfinity NegZero = Some 0"
| "toIntegerOrInfinity PosInf = None"
| "toIntegerOrInfinity NegInf = None"
| "toIntegerOrInfinity (Fin q) = Some (if 0 \<le> q then \<lfloor>q\<rfloor> else - \<lfloor>- q\<rfloor>)"

text \<open>
  The digits of \<open>x \<ge> 0\<close> with \<open>f\<close> fractional digits: the integer \<open>n\<close> nearest to
  \<open>x * 10 ^ f\<close>, the larger one of two, printed with the point \<open>f\<close> digits from the right.
\<close>

definition fixed_digits :: "rat \<Rightarrow> nat \<Rightarrow> string" where
  "fixed_digits x f =
     (let n = nat \<lfloor>x * pow10 (int f) + 1 / 2\<rfloor>;
          m = nat_digits n;
          m = (if length m \<le> f then replicate (f + 1 - length m) (CHR ''0'') @ m else m);
          k = length m
      in if f = 0 then m else take (k - f) m @ ''.'' @ drop (k - f) m)"

definition toFixed :: "jsnum \<Rightarrow> jsnum \<Rightarrow> error + string" where
  "toFixed x fractionDigits =
     (case toIntegerOrInfinity fractionDigits of
        None \<Rightarrow> Inl RangeError
      | Some f \<Rightarrow>
          if f < 0 \<or> 100 < f then Inl RangeError
          else Inr (case x of
                      NaN \<Rightarrow> ''NaN''
                    | PosInf \<Rightarrow> ''Infinity''
                    | NegInf \<Rightarrow> ''-Infinity''
                    | NegZero \<Rightarrow> fixed_digits 0 (nat f)
                    | Fin q \<Rightarrow>
                        (if q < 0 then ''-'' else []) @
                        (if pow10 21 \<le> \<bar>q\<bar> then number_to_string (Fin \<bar>q\<bar>)
                         else fixed_digits \<bar>q\<bar> (nat f))))"

subsection \<open>parseFloat\<close>

text \<open>
  A character is a code unit below 256. The white space of \<open>parseFloat\<close>, and of \<open>\s\<close> in a
  regular expression, among these: tab, line feed, vertical tab, form feed, carriage
  return, space and no-break space.
\<close>

definition is_space :: "char \<Rightarrow> bool" where
  "is_space c \<longleftrightarrow>
     c \<in> set [CHR 0x09, CHR 0x0A, CHR 0x0B, CHR 0x0C, CHR 0x0D, CHR '' '', CHR 0xA0]"

definition is_digit :: "char \<Rightarrow> bool" where
  "is_digit c \<longleftrightarrow> c \<in> set ''0123456789''"

definition digit_val :: "char \<Rightarrow> nat" where
  "digit_val c = of_char c - 48"

definition digits_val :: "string \<Rightarrow> nat" where
  "digits_val ds = foldl (\<lambda>a c. 10 * a + digit_val c) 0 ds"

text \<open>The value of an ExponentPart at the head of the text, 0 when there is none.\<close>

definition exponent_part :: "string \<Rightarrow> int" where
  "exponent_part r =
     (case r of
        [] \<Rightarrow> 0
      | c # r1 \<Rightarrow>
          if c = CHR ''e'' \<or> c = CHR ''E'' then
            (let (neg, r2) = (case r1 of
                                [] \<Rightarrow> (False, r1)
                              | d # r3 \<Rightarrow> if d = CHR ''-'' then (True, r3)
                                          else if d = CHR ''+'' then (False, r3)
                                          else (False, r1));
                 ds = takeWhile is_digit r2
             in if ds = [] then 0
                else if neg then - int (digits_val ds) else int (digits_val ds))
          else 0)"

text \<open>
  \<open>parseFloat\<close> of a string: leading white space is skipped, the longest prefix that is a
  StrDecimalLiteral is read, and its value is rounded to a Number; \<open>NaN\<close> when no prefix is
  one.
\<close>

definition parseFloat :: "string \<Rightarrow> jsnum" where
  "parseFloat str =
     (let t = dropWhile is_space str;
          (neg, u) = (case t of
                        [] \<Rightarrow> (False, t)
                      | c # r \<Rightarrow> if c = CHR ''-'' then (True, r)
                                  else if c = CHR ''+'' then (False, r)
                                  else (False, t))
      in if take 8 u = ''Infinity'' then js_inf neg
         else let ip = takeWhile is_digit u;
                  r1 = dropWhile is_digit u;
                  (fp, r2) = (case r1 of
                                [] \<Rightarrow> ([], r1)
                              | c # r \<Rightarrow> if c = CHR ''.''
                                          then (takeWhile is_digit r, dropWhile is_digit r)
                                          else ([], r1))
              in if ip = [] \<and> fp = [] then NaN
                 else fl neg (of_nat (digits_val (ip @ fp)) *
                              pow10 (exponent_part r2 - int (length fp))))"

section \<open>The plugin and its configuration\<close>

text \<open>
  The fields of a \<open>ResolutionIndependencePlugin\<close> object (the source writes them with a
  leading underscore), with the types that the source documents for them: Numbers and
  strings. \<open>currentPropName\<close> is \<open>None\<close> until \<open>visitDeclaration\<close> has run.
\<close>

record plugin =
  baseSize :: jsnum
  riUnit :: string
  unit :: string
  absoluteUnit :: string
  minUnitSize :: jsnum
  minSize :: jsnum
  precision :: jsnum
  minScaleFactor :: jsnum
  currentPropName :: "string option"

text \<open>
  The options hash passed to \<open>configure\<close>: a field is \<open>None\<close> when the hash does not have it
  (or has it as \<open>undefined\<close>).
\<close>

record options =
  opt_baseSize :: "jsnum option"
  opt_riUnit :: "string option"
  opt_unit :: "string option"
  opt_absoluteUnit :: "string option"
  opt_minUnitSize :: "jsnum option"
  opt_minSize :: "jsnum option"
  opt_precision :: "jsnum option"

text \<open>
  The prototype carries the defaults. It has no \<open>_minScaleFactor\<close>: the constructor calls
  \<open>configure\<close>, which sets it, before anything reads it; the field is \<open>NaN\<close> (the Number that
  \<open>undefined\<close> converts to) until then.
\<close>

definition prototype :: plugin where
  "prototype =
     \<lparr>baseSize = Fin 24, riUnit = ''rem'', unit = ''px'', absoluteUnit = ''apx'',
      minUnitSize = Fin 1, minSize = Fin 16, precision = Fin 5,
      minScaleFactor = NaN, currentPropName = None\<rparr>"

text \<open>\<open>(opts && opts.f !== undefined) ? opts.f : this._f\<close>\<close>

definition supplied :: "options option \<Rightarrow> (options \<Rightarrow> 'a option) \<Rightarrow> 'a \<Rightarrow> 'a" where
  "supplied opts f old =
     (case opts of
        None \<Rightarrow> old
      | Some opt \<Rightarrow> (case f opt of None \<Rightarrow> old | Some v \<Rightarrow> v))"

definition configure :: "plugin \<Rightarrow> options option \<Rightarrow> plugin" where
  "configure this opts =
     (let this = this\<lparr>baseSize := supplied opts opt_baseSize (baseSize this)\<rparr>;
          this = this\<lparr>riUnit := supplied opts opt_riUnit (riUnit this)\<rparr>;
          this = this\<lparr>unit := supplied opts opt_unit (unit this)\<rparr>;
          this = this\<lparr>absoluteUnit := supplied opts opt_absoluteUnit (absoluteUnit this)\<rparr>;
          this = this\<lparr>minUnitSize := supplied opts opt_minUnitSize (minUnitSize this)\<rparr>;
          this = this\<lparr>minSize := supplied opts opt_minSize (minSize this)\<rparr>;
          this = this\<lparr>precision := supplied opts opt_precision (precision this)\<rparr>
      in this\<lparr>minScaleFactor := js_div (minSize this) (baseSize this)\<rparr>)"

text \<open>The constructor: a fresh object with the prototype's fields, configured.\<close>

definition ResolutionIndependencePlugin :: "options option \<Rightarrow> plugin" where
  "ResolutionIndependencePlugin opts = configure prototype opts"

section \<open>Converting one measurement\<close>

text \<open>\<open>parseFloat((value / this._baseSize).toFixed(this._precision))\<close>\<close>

definition convertValue :: "plugin \<Rightarrow> jsnum \<Rightarrow> error + jsnum" where
  "convertValue this v =
     (case toFixed (js_div v (baseSize this)) (precision this) of
        Inl e \<Rightarrow> Inl e
      | Inr s \<Rightarrow> Inr (parseFloat s))"

text \<open>
  The unit object of a measurement: the symbols of its numerator and the fallback symbol.
  An entry of the numerator is \<open>None\<close> when it is \<open>undefined\<close>, as \<open>backupUnit\<close> is.
\<close>

record unitNode =
  numerator :: "string option list"
  backupUnit :: "string option"

text \<open>
  \<open>(unitNode && unitNode.numerator && unitNode.numerator.length && unitNode.numerator[0])
  || unitNode.backupUnit\<close>: an empty numerator, and a first entry that is undefined or the
  empty string, give the fallback.
\<close>

definition unit_of :: "unitNode \<Rightarrow> string option" where
  "unit_of unitNode =
     (case numerator unitNode of
        [] \<Rightarrow> backupUnit unitNode
      | None # _ \<Rightarrow> backupUnit unitNode
      | Some u # _ \<Rightarrow> if u = [] then backupUnit unitNode else Some u)"

text \<open>The body of \<open>parseValueObject\<close>, once the unit symbol is known.\<close>

definition convertScalar :: "plugin \<Rightarrow> jsnum \<Rightarrow> string option \<Rightarrow> error + (jsnum \<times> string option)" where
  "convertScalar this v u =
     (if u = Some (unit this) then
        (let scaledValue = js_abs (js_mul v (minScaleFactor this))
         in if truthy scaledValue \<and> js_le scaledValue (minUnitSize this) then
              Inr (if js_lt (js_abs v) (minUnitSize this) then v
                   else js_mul (minUnitSize this) (if js_lt v (Fin 0) then Fin (- 1) else Fin 1),
                   Some (unit this))
            else (case convertValue this v of
                    Inl e \<Rightarrow> Inl e
                  | Inr r \<Rightarrow> Inr (r, Some (riUnit this))))
      else if u = Some (absoluteUnit this) then Inr (v, Some (unit this))
      else Inr (v, u))"

definition parseValueObject :: "plugin \<Rightarrow> jsnum \<Rightarrow> unitNode \<Rightarrow> error + (jsnum \<times> string option)" where
  "parseValueObject this v unitNode = convertScalar this v (unit_of unitNode)"

section \<open>The value tree\<close>

text \<open>
  What the walker can be handed. \<open>RFalse\<close> is the boolean that \<open>visitDeclaration\<close> passes for
  an inline declaration, \<open>RUndefined\<close> a missing node. The objects are a call (a node with an
  \<open>args\<close> array), a measurement (a numeric \<open>value\<close> with a \<open>unit\<close> object) and a node with a
  \<open>value\<close> and no unit, whose value is absent, a string, a number or an array of nodes.
\<close>

datatype rnode =
    RFalse
  | RUndefined
  | RCall "rnode list"
  | RDim jsnum unitNode
  | RVal jsval
and jsval =
    VUndefined
  | VStr string
  | VNum jsnum
  | VArr "rnode list"

text \<open>ToBoolean and ToString of a value; an array prints its elements between commas.\<close>

fun node_toString :: "rnode \<Rightarrow> string" where
  "node_toString RFalse = ''false''"
| "node_toString RUndefined = []"
| "node_toString _ = ''[object Object]''"

fun join :: "string \<Rightarrow> string list \<Rightarrow> string" where
  "join sep [] = []"
| "join sep [x] = x"
| "join sep (x # y # ys) = x @ sep @ join sep (y # ys)"

fun val_truthy :: "jsval \<Rightarrow> bool" where
  "val_truthy VUndefined = False"
| "val_truthy (VStr s) = (s \<noteq> [])"
| "val_truthy (VNum n) = truthy n"
| "val_truthy (VArr xs) = True"

fun js_toString :: "jsval \<Rightarrow> string" where
  "js_toString VUndefined = ''undefined''"
| "js_toString (VStr s) = s"
| "js_toString (VNum n) = number_to_string n"
| "js_toString (VArr xs) = join '','' (map node_toString xs)"

text \<open>\<open>s.slice(-1 * n)\<close>: the last \<open>n\<close> characters, and all of \<open>s\<close> when \<open>n\<close> is 0.\<close>

definition slice_last :: "nat \<Rightarrow> string \<Rightarrow> string" where
  "slice_last n s = (if n = 0 then s else drop (length s - n) s)"

section \<open>Converting a token\<close>

definition parseValueString :: "plugin \<Rightarrow> jsval \<Rightarrow> error + jsval" where
  "parseValueString this v =
     (if val_truthy v \<and>
         slice_last (length (absoluteUnit this)) (js_toString v) = absoluteUnit this then
        Inr (VStr (number_to_string (parseFloat (js_toString v)) @ unit this))
      else if val_truthy v \<and> slice_last (length (unit this)) (js_toString v) = unit this then
        (let x = parseFloat (js_toString v);
             scaledValue = js_abs (js_mul x (minScaleFactor this))
         in if truthy scaledValue \<and> js_le scaledValue (minUnitSize this) then
              (if js_lt (js_abs x) (minUnitSize this) then
                 Inr (VStr (number_to_string x @ unit this))
               else
                 Inr (VStr (number_to_string
                             (js_mul (minUnitSize this)
                                (if js_lt x (Fin 0) then Fin (- 1) else Fin 1)) @
                            unit this)))
            else (case convertValue this x of
                    Inl e \<Rightarrow> Inl e
                  | Inr r \<Rightarrow> Inr (VStr (number_to_string r @ riUnit this))))
      else Inr v)"

section \<open>Tokenizing a string\<close>

text \<open>
  The scan \<open>value.match(/\d+[\.]?\d+[^\s\.!]*|[!]*[^\s!]+/g)\<close>. \<open>alt1\<close> and \<open>alt2\<close> give the
  length of the match of each alternative at the head of the text. In the first, the
  digits, a point and more digits are taken when a digit follows the point; otherwise the
  two \<open>\d+\<close> share a run of at least two digits.
\<close>

definition tail_char :: "char \<Rightarrow> bool" where
  "tail_char c \<longleftrightarrow> \<not> is_space c \<and> c \<noteq> CHR ''.'' \<and> c \<noteq> CHR ''!''"

definition word_char :: "char \<Rightarrow> bool" where
  "word_char c \<longleftrightarrow> \<not> is_space c \<and> c \<noteq> CHR ''!''"

definition alt1 :: "string \<Rightarrow> nat option" where
  "alt1 s =
     (let n = length (takeWhile is_digit s);
          r = drop n s;
          m = length (takeWhile is_digit (drop 1 r))
      in if n = 0 then None
         else if take 1 r = ''.'' \<and> 0 < m then
           Some (n + 1 + m + length (takeWhile tail_char (drop (1 + m) r)))
         else if 2 \<le> n then Some (n + length (takeWhile tail_char r))
         else None)"

definition alt2 :: "string \<Rightarrow> nat option" where
  "alt2 s =
     (let k = length (takeWhile (\<lambda>c. c = CHR ''!'') s);
          j = length (takeWhile word_char (drop k s))
      in if j = 0 then None else Some (k + j))"

definition match_at :: "string \<Rightarrow> nat option" where
  "match_at s = (case alt1 s of Some n \<Rightarrow> Some n | None \<Rightarrow> alt2 s)"

function scan :: "string \<Rightarrow> string list" where
  "scan s =
     (if s = [] then []
      else case match_at s of
             Some n \<Rightarrow> take n s # scan (drop n s)
           | None \<Rightarrow> scan (tl s))"
  by pat_completeness auto
termination
  by (relation "measure length")
     (auto simp: match_at_def alt1_def alt2_def Let_def split: option.splits if_splits)

declare scan.simps [simp del]

text \<open>\<open>match\<close> returns \<open>null\<close> when nothing matches.\<close>

definition regex_match :: "string \<Rightarrow> string list option" where
  "regex_match s = (if scan s = [] then None else Some (scan s))"

text \<open>\<open>xs.map(f)\<close> for an \<open>f\<close> that can throw: the first error ends the loop.\<close>

fun map_result :: "('a \<Rightarrow> error + 'b) \<Rightarrow> 'a list \<Rightarrow> error + 'b list" where
  "map_result f [] = Inr []"
| "map_result f (x # xs) =
     (case f x of
        Inl e \<Rightarrow> Inl e
      | Inr y \<Rightarrow> (case map_result f xs of Inl e \<Rightarrow> Inl e | Inr ys \<Rightarrow> Inr (y # ys)))"

text \<open>The string of an array element in \<open>join\<close>: empty for \<open>undefined\<close>.\<close>

fun join_elem :: "jsval \<Rightarrow> string" where
  "join_elem VUndefined = []"
| "join_elem v = js_toString v"

text \<open>
  \<open>parseString(ruleNode, stringValues)\<close>: \<open>nodeValue\<close> is \<open>ruleNode.value\<close>, and \<open>stringValues\<close>
  is \<open>None\<close> when the argument is not passed. The result is \<open>None\<close> for \<open>undefined\<close>.
\<close>

definition parseString :: "plugin \<Rightarrow> string \<Rightarrow> string option \<Rightarrow> error + string option" where
  "parseString this nodeValue stringValues =
     (let v = (case stringValues of
                 None \<Rightarrow> nodeValue
               | Some s \<Rightarrow> if s \<noteq> [] then s else nodeValue)
      in case regex_match v of
           None \<Rightarrow> Inr None
         | Some toks \<Rightarrow>
             (case map_result (parseValueString this) (map VStr toks) of
                Inl e \<Rightarrow> Inl e
              | Inr rs \<Rightarrow> Inr (Some (join '' '' (map join_elem rs)))))"

section \<open>Walking a declaration\<close>

definition csvProps :: "string list" where
  "csvProps = [''background'', ''background-size'', ''background-position'']"

text \<open>\<open>s.split(',')\<close>\<close>

fun split_on :: "char \<Rightarrow> string \<Rightarrow> string list" where
  "split_on c [] = [[]]"
| "split_on c (x # xs) =
     (if x = c then [] # split_on c xs
      else (case split_on c xs of
              [] \<Rightarrow> [[x]]
            | y # ys \<Rightarrow> (x # y) # ys))"

text \<open>
  The loop over the comma-separated strings, \<open>parsedString\<close> being the accumulator:
  \<open>parsedString += (parsedString ? ', ' : '') + this.parseString(ruleNode, csvStrings[idx])\<close>.
  Adding \<open>undefined\<close> to a string appends the text \<open>undefined\<close>.
\<close>

fun csv_loop :: "plugin \<Rightarrow> string \<Rightarrow> string \<Rightarrow> string list \<Rightarrow> error + string" where
  "csv_loop this nodeValue parsedString [] = Inr parsedString"
| "csv_loop this nodeValue parsedString (seg # segs) =
     (case parseString this nodeValue (Some seg) of
        Inl e \<Rightarrow> Inl e
      | Inr r \<Rightarrow>
          csv_loop this nodeValue
            (parsedString @ (if parsedString \<noteq> [] then '', '' else []) @
             (case r of None \<Rightarrow> ''undefined'' | Some t \<Rightarrow> t))
            segs)"

text \<open>\<open>unitNode.numerator[0] = u\<close>\<close>

definition set_numerator0 :: "unitNode \<Rightarrow> string option \<Rightarrow> unitNode" where
  "set_numerator0 unitNode u =
     unitNode\<lparr>numerator := (case numerator unitNode of [] \<Rightarrow> [u] | _ # us \<Rightarrow> u # us)\<rparr>"

text \<open>
  The branch of \<open>processRuleNode\<close> for a node whose value is a string: the comma-separated
  strings for a property of \<open>csvProps\<close>, the whole string otherwise, and
  \<open>if (parsedString) ruleNode.value = parsedString\<close>.
\<close>

definition processString :: "plugin \<Rightarrow> string \<Rightarrow> error + string" where
  "processString this s =
     (case (if currentPropName this \<in> Some ` set csvProps
            then (case csv_loop this s [] (split_on (CHR '','') s) of
                    Inl e \<Rightarrow> Inl e
                  | Inr p \<Rightarrow> Inr (Some p))
            else parseString this s None) of
        Inl e \<Rightarrow> Inl e
      | Inr None \<Rightarrow> Inr s
      | Inr (Some parsedString) \<Rightarrow> Inr (if parsedString \<noteq> [] then parsedString else s))"

text \<open>
  The walker changes the nodes in place; here each function returns the node as it is
  left. Reading a property of \<open>undefined\<close> throws a TypeError.
\<close>

fun processRuleNode :: "plugin \<Rightarrow> rnode \<Rightarrow> error + rnode"
  and processRuleNodes :: "plugin \<Rightarrow> rnode list \<Rightarrow> error + rnode list"
  and updateNode :: "plugin \<Rightarrow> rnode \<Rightarrow> error + rnode"
  and updateNodes :: "plugin \<Rightarrow> rnode list \<Rightarrow> error + rnode list"
where
  "processRuleNode this RUndefined = Inl TypeError"
| "processRuleNode this (RCall args) =
     (case updateNodes this args of Inl e \<Rightarrow> Inl e | Inr args' \<Rightarrow> Inr (RCall args'))"
| "processRuleNode this (RVal (VStr s)) =
     (case processString this s of Inl e \<Rightarrow> Inl e | Inr s' \<Rightarrow> Inr (RVal (VStr s')))"
| "processRuleNode this RFalse = updateNode this RFalse"
| "processRuleNode this (RDim v u) = updateNode this (RDim v u)"
| "processRuleNode this (RVal VUndefined) = updateNode this (RVal VUndefined)"
| "processRuleNode this (RVal (VNum n)) = updateNode this (RVal (VNum n))"
| "processRuleNode this (RVal (VArr xs)) = updateNode this (RVal (VArr xs))"
| "processRuleNodes this [] = Inr []"
| "processRuleNodes this (x # xs) =
     (case processRuleNode this x of
        Inl e \<Rightarrow> Inl e
      | Inr x' \<Rightarrow> (case processRuleNodes this xs of
                     Inl e \<Rightarrow> Inl e
                   | Inr xs' \<Rightarrow> Inr (x' # xs')))"
| "updateNode this RFalse = Inr RFalse"
| "updateNode this RUndefined = Inr RUndefined"
| "updateNode this (RCall args) = Inr (RCall args)"
| "updateNode this (RDim v u) =
     (case parseValueObject this v u of
        Inl e \<Rightarrow> Inl e
      | Inr (v', u') \<Rightarrow> Inr (RDim v' (set_numerator0 u u')))"
| "updateNode this (RVal (VArr xs)) =
     (case processRuleNodes this xs of
        Inl e \<Rightarrow> Inl e
      | Inr xs' \<Rightarrow> (case parseValueString this (VArr xs') of
                     Inl e \<Rightarrow> Inl e
                   | Inr v' \<Rightarrow> Inr (RVal v')))"
| "updateNode this (RVal v) =
     (case parseValueString this v of Inl e \<Rightarrow> Inl e | Inr v' \<Rightarrow> Inr (RVal v'))"
| "updateNodes this [] = Inr []"
| "updateNodes this (x # xs) =
     (case updateNode this x of
        Inl e \<Rightarrow> Inl e
      | Inr x' \<Rightarrow> (case updateNodes this xs of
                     Inl e \<Rightarrow> Inl e
                   | Inr xs' \<Rightarrow> Inr (x' # xs')))"

text \<open>
  A declaration node: its property name, its value subtree (the field \<open>value\<close> of the
  source), its inline flag, and the rest of its fields in the record's extension.
\<close>

record declNode =
  name :: string
  node_value :: rnode
  inline :: bool

text \<open>
  \<open>ruleNode = node && !node.inline && node.value\<close> is \<open>false\<close> for an inline declaration and
  the value subtree otherwise; only in the second case is what the walker changes a part
  of the declaration.
\<close>

definition visitDeclaration ::
  "plugin \<Rightarrow> 'a declNode_scheme \<Rightarrow> error + (plugin \<times> 'a declNode_scheme)" where
  "visitDeclaration this node =
     (let ruleNode = (if inline node then RFalse else node_value node);
          this = this\<lparr>currentPropName := Some (name node)\<rparr>
      in case processRuleNode this ruleNode of
           Inl e \<Rightarrow> Inl e
         | Inr r \<Rightarrow> Inr (this, if inline node then node else node\<lparr>node_value := r\<rparr>))"

section \<open>The scale-or-clamp rule of the specification\<close>

text \<open>
  The rule as the specification writes it, to be compared with \<open>parseValueObject\<close>. The
  test \<open>scaledMagnitude != 0\<close> is the comparison of Numbers (\<open>NaN\<close> differs from every
  Number, the two zeros are equal), and \<open>sign\<close> is the sign function (1, -1, and the
  argument itself when it is a zero or \<open>NaN\<close>).
\<close>

definition js_eq :: "jsnum \<Rightarrow> jsnum \<Rightarrow> bool" where
  "js_eq a b \<longleftrightarrow> a \<noteq> NaN \<and> b \<noteq> NaN \<and> rank a = rank b \<and> fin_val a = fin_val b"

definition js_sign :: "jsnum \<Rightarrow> jsnum" where
  "js_sign v = (if js_lt (Fin 0) v then Fin 1 else if js_lt v (Fin 0) then Fin (- 1) else v)"

text \<open>
  \<open>round(x, p)\<close>, rounding to \<open>p\<close> fractional digits, half away from zero: the magnitude
  of \<open>x\<close> times \<open>10 ^ p\<close> is rounded to the nearest integer, the upper one of two, and the
  result is the Number nearest to that integer over \<open>10 ^ p\<close>, negative when \<open>x\<close> is. \<open>NaN\<close>
  and the infinities have no digits to round. The rounding has no error case.
\<close>

definition round_to_precision :: "jsnum \<Rightarrow> nat \<Rightarrow> jsnum" where
  "round_to_precision x p =
     (if x = NaN \<or> is_inf x then x
      else fl (js_lt x (Fin 0)) (of_int \<lfloor>mag x * 10 ^ p + 1 / 2\<rfloor> / 10 ^ p))"

text \<open>
  The rule. The precision of the specification is an integer, at least 0; it is read off
  the configured Number as its integer part.
\<close>

definition scale_or_clamp_spec :: "plugin \<Rightarrow> jsnum \<Rightarrow> jsnum \<times> string option" where
  "scale_or_clamp_spec cfg v =
     (let scaledMagnitude = js_abs (js_mul v (minScaleFactor cfg))
      in if \<not> js_eq scaledMagnitude (Fin 0) \<and> js_le scaledMagnitude (minUnitSize cfg) then
           (if js_lt (js_abs v) (minUnitSize cfg) then (v, Some (unit cfg))
            else (js_mul (minUnitSize cfg) (js_sign v), Some (unit cfg)))
         else (round_to_precision (js_div v (baseSize cfg)) (nat \<lfloor>fin_val (precision cfg)\<rfloor>),
               Some (riUnit cfg)))"

text \<open>\<open>toFixed\<close> accepts a number of fractional digits that truncates to 0 .. 100.\<close>

definition fractionDigits_ok :: "jsnum \<Rightarrow> bool" where
  "fractionDigits_ok p =
     (case toIntegerOrInfinity p of None \<Rightarrow> False | Some f \<Rightarrow> 0 \<le> f \<and> f \<le> 100)"

section \<open>Inputs of the examples\<close>

definition no_options :: options where
  "no_options =
     \<lparr>opt_baseSize = None, opt_riUnit = None, opt_unit = None, opt_absoluteUnit = None,
      opt_minUnitSize = None, opt_minSize = None, opt_precision = None\<rparr>"

text \<open>The plugin with the default configuration.\<close>

definition default_plugin :: plugin where
  "default_plugin = ResolutionIndependencePlugin None"

text \<open>A measurement's unit object with the one symbol \<open>u\<close>.\<close>

definition unit_node :: "string \<Rightarrow> unitNode" where
  "unit_node u = \<lparr>numerator = [Some u], backupUnit = None\<rparr>"

text \<open>A plugin whose absolute unit is its source unit.\<close>

definition same_units_plugin :: plugin where
  "same_units_plugin =
     ResolutionIndependencePlugin (Some (no_options\<lparr>opt_absoluteUnit := Some ''px''\<rparr>))"

text \<open>A plugin configured with 101 fractional digits.\<close>

definition precision_101_plugin :: plugin where
  "precision_101_plugin =
     ResolutionIndependencePlugin (Some (no_options\<lparr>opt_precision := Some (Fin 101)\<rparr>))"

text \<open>A declaration of property \<open>p\<close> whose value is the string \<open>s\<close>.\<close>

definition string_declaration :: "string \<Rightarrow> string \<Rightarrow> declNode" where
  "string_declaration p s = \<lparr>name = p, node_value = RVal (VStr s), inline = False\<rparr>"

section \<open>Properties of the arithmetic\<close>

text \<open>
  Evaluating the definitions on literals. The congruence rules make the simplifier
  evaluate a bound term, a condition or a scrutinee before it enters the body.
\<close>

lemma floor_rat_numeral [simp]:
  "\<lfloor>numeral a / numeral b :: rat\<rfloor> = numeral a div numeral b"
  using floor_divide_of_int_eq [of "numeral a" "numeral b", where ?'a = rat] by simp

lemma ceiling_rat_numeral [simp]:
  "\<lceil>numeral a / numeral b :: rat\<rceil> = - (- numeral a div numeral b)"
  using floor_divide_of_int_eq [of "- numeral a" "numeral b", where ?'a = rat]
  by (simp add: ceiling_def)

lemma bitlen_lit:
  "bitlen 0 = 0" "bitlen (Suc 0) = 1" "bitlen (numeral k) = Suc (bitlen (numeral k div 2))"
  by (simp_all add: bitlen.simps [of 0] bitlen.simps [of "numeral k"]
      bitlen.simps [of "Suc 0"])

lemma declen_lit:
  "declen 0 = 0" "declen (Suc 0) = 1" "declen (numeral k) = Suc (declen (numeral k div 10))"
  by (simp_all add: declen.simps [of 0] declen.simps [of "numeral k"]
      declen.simps [of "Suc 0"])

lemma nat_digits_lit:
  "nat_digits 0 = ''0''" "nat_digits (Suc 0) = ''1''"
  "nat_digits (numeral k) =
     (if numeral k < (10::nat) then [''0123456789'' ! numeral k]
      else nat_digits (numeral k div 10) @ [''0123456789'' ! (numeral k mod 10)])"
  by (simp_all add: nat_digits.simps [of 0] nat_digits.simps [of "Suc 0"]
      nat_digits.simps [of "numeral k"] digit_char_def)

lemmas eval_cong =
  let_weak_cong if_weak_cong prod.case_cong_weak option.case_cong_weak sum.case_cong_weak
  list.case_cong_weak

lemmas num_eval =
  js_mul_def js_div_def js_lt_def js_le_def truthy_def fl_def round_mag_def ilog2_def
  round_half_even_def pow2_def js_zero_def js_inf_def bitlen_lit Let_def

lemmas str_eval =
  toFixed_def fixed_digits_def pow10_def parseFloat_def
  is_space_def is_digit_def digit_val_def digits_val_def exponent_part_def nat_digits_lit

lemmas tostr_eval =
  ilog10_def digits_at_def shortest_digits_def format_digits_def declen_lit upt_rec

lemmas scan_eval =
  scan.simps match_at_def alt1_def alt2_def tail_char_def word_char_def regex_match_def
  is_space_def is_digit_def

lemmas convert_eval =
  parseValueObject_def convertScalar_def convertValue_def parseValueString_def slice_last_def
  num_eval str_eval tostr_eval

lemmas walk_eval =
  visitDeclaration_def processString_def csvProps_def parseString_def scan_eval convert_eval

lemma min_scale_factor_default:
  "js_div (Fin 16) (Fin 24) = Fin (6004799503160661 / 9007199254740992)"
  by (simp add: num_eval cong: eval_cong)

lemma fl_zero: "fl neg 0 = js_zero neg"
  by (simp add: fl_def)

lemma js_mul_zero_falsy: "is_zero v \<Longrightarrow> \<not> truthy (js_abs (js_mul v m))"
  by (cases v; cases m) (auto simp: js_mul_def truthy_def fl_zero js_zero_def js_inf_def)

lemma js_mul_NaN_falsy: "\<not> truthy (js_abs (js_mul NaN m))"
  by (simp add: js_mul_def truthy_def)

lemma truthy_neq_zero: "truthy s \<and> js_le s m \<longleftrightarrow> \<not> js_eq s (Fin 0) \<and> js_le s m"
  by (cases s) (auto simp: truthy_def js_eq_def js_le_def)

lemma js_sign_nonzero:
  "v \<noteq> NaN \<Longrightarrow> \<not> is_zero v \<Longrightarrow>
   js_sign v = (if js_lt v (Fin 0) then Fin (- 1) else Fin 1)"
  by (cases v) (auto simp: js_sign_def js_lt_def)

lemma default_plugin_eq:
  "default_plugin =
     \<lparr>baseSize = Fin 24, riUnit = ''rem'', unit = ''px'', absoluteUnit = ''apx'',
      minUnitSize = Fin 1, minSize = Fin 16, precision = Fin 5,
      minScaleFactor = Fin (6004799503160661 / 9007199254740992),
      currentPropName = None\<rparr>"
  by (simp add: default_plugin_def ResolutionIndependencePlugin_def configure_def
      supplied_def prototype_def min_scale_factor_default)

lemma same_units_plugin_eq:
  "same_units_plugin =
     \<lparr>baseSize = Fin 24, riUnit = ''rem'', unit = ''px'', absoluteUnit = ''px'',
      minUnitSize = Fin 1, minSize = Fin 16, precision = Fin 5,
      minScaleFactor = Fin (6004799503160661 / 9007199254740992),
      currentPropName = None\<rparr>"
  by (simp add: same_units_plugin_def ResolutionIndependencePlugin_def configure_def
      supplied_def prototype_def no_options_def min_scale_factor_default)

lemma unit_of_unit_node: "unit_of (unit_node u) = (if u = [] then None else Some u)"
  by (simp add: unit_of_def unit_node_def)

lemma precision_101_plugin_eq:
  "precision_101_plugin =
     \<lparr>baseSize = Fin 24, riUnit = ''rem'', unit = ''px'', absoluteUnit = ''apx'',
      minUnitSize = Fin 1, minSize = Fin 16, precision = Fin 101,
      minScaleFactor = Fin (6004799503160661 / 9007199254740992),
      currentPropName = None\<rparr>"
  by (simp add: precision_101_plugin_def ResolutionIndependencePlugin_def configure_def
      supplied_def prototype_def no_options_def min_scale_factor_default)

subsection \<open>Zero\<close>

lemma js_div_zero:
  "b \<noteq> NaN \<Longrightarrow> \<not> is_zero b \<Longrightarrow> js_div (Fin 0) b = js_zero (is_neg b)"
  by (cases b) (auto simp: js_div_def fl_zero js_zero_def)

lemma is_digit_0 [simp]: "is_digit (CHR ''0'')"
  by (simp add: is_digit_def)

lemma not_is_space_0 [simp]: "\<not> is_space (CHR ''0'')"
  by (simp add: is_space_def)

lemma not_is_digit_dot [simp]: "\<not> is_digit (CHR ''.'')"
  by (simp add: is_digit_def)

lemma digit_val_0 [simp]: "digit_val (CHR ''0'') = 0"
  by (simp add: digit_val_def)

lemma foldl_zeros: "foldl (\<lambda>a c. 10 * a + digit_val c) 0 (replicate n (CHR ''0'')) = 0"
  by (induction n) simp_all

lemma digits_val_zeros: "digits_val (CHR ''0'' # replicate n (CHR ''0'')) = 0"
  using foldl_zeros [of "Suc n"] by (simp add: digits_val_def)

lemma takeWhile_zeros: "takeWhile is_digit (replicate n (CHR ''0'')) = replicate n (CHR ''0'')"
  by (induction n) simp_all

lemma dropWhile_zeros: "dropWhile is_digit (replicate n (CHR ''0'')) = []"
  by (induction n) simp_all

lemma replicate_snoc_0: "replicate n (CHR ''0'') @ ''0'' = CHR ''0'' # replicate n (CHR ''0'')"
  by (induction n) simp_all

lemma fixed_digits_zero:
  "fixed_digits 0 f = (if f = 0 then ''0'' else CHR ''0'' # CHR ''.'' # replicate f (CHR ''0''))"
proof (cases f)
  case 0
  then show ?thesis
    by (simp add: fixed_digits_def nat_digits_lit)
next
  case (Suc n)
  then show ?thesis
    by (simp add: fixed_digits_def nat_digits_lit replicate_snoc_0)
qed

lemma parseFloat_0: "parseFloat ''0'' = Fin 0"
  by (simp add: parseFloat_def Let_def exponent_part_def digits_val_def fl_zero js_zero_def)

lemma parseFloat_zeros: "parseFloat (CHR ''0'' # CHR ''.'' # replicate f (CHR ''0'')) = Fin 0"
  by (simp add: parseFloat_def Let_def takeWhile_zeros dropWhile_zeros exponent_part_def
      digits_val_zeros fl_zero js_zero_def)

lemma parseFloat_fixed_zero: "parseFloat (fixed_digits 0 f) = Fin 0"
  by (simp add: fixed_digits_zero parseFloat_0 parseFloat_zeros)

lemma toFixed_zero:
  "fractionDigits_ok p \<Longrightarrow> \<exists>f. toFixed (js_zero s) p = Inr (fixed_digits 0 f)"
  by (auto simp: fractionDigits_ok_def toFixed_def js_zero_def pow10_def split: option.splits)

lemma convertValue_zero:
  assumes "baseSize this \<noteq> NaN" "\<not> is_zero (baseSize this)"
    "fractionDigits_ok (precision this)"
  shows "convertValue this (Fin 0) = Inr (Fin 0)"
proof -
  obtain f where
    "toFixed (js_zero (is_neg (baseSize this))) (precision this) = Inr (fixed_digits 0 f)"
    using toFixed_zero [OF assms(3)] by blast
  then show ?thesis
    by (simp add: convertValue_def js_div_zero [OF assms(1,2)] parseFloat_fixed_zero)
qed

subsection \<open>A string without tokens\<close>

lemma whole_text_no_tokens:
  "regex_match s = None \<Longrightarrow> currentPropName this \<notin> Some ` set csvProps \<Longrightarrow>
   processRuleNode this (RVal (VStr s)) = Inr (RVal (VStr s))"
  by (simp add: processString_def parseString_def)

subsection \<open>Digits printed and read back\<close>

lemma digit_char_props:
  assumes "d < 10"
  shows "is_digit (digit_char d)" "digit_val (digit_char d) = d"
proof -
  from assms have "d \<in> {0, 1, 2, 3, 4, 5, 6, 7, 8, 9}" by auto
  then show "is_digit (digit_char d)" "digit_val (digit_char d) = d"
    by (auto simp: digit_char_def is_digit_def digit_val_def)
qed

lemma nat_digits_all_digits: "\<forall>c\<in>set (nat_digits n). is_digit c"
proof (induction n rule: nat_digits.induct)
  case (1 n)
  show ?case
  proof (cases "n < 10")
    case True
    then show ?thesis
      by (simp add: nat_digits.simps [of n] digit_char_props)
  next
    case False
    then have "n mod 10 < 10" by simp
    with False 1 show ?thesis
      by (simp add: nat_digits.simps [of n] digit_char_props)
  qed
qed

lemma nat_digits_nonempty: "nat_digits n \<noteq> []"
  by (simp add: nat_digits.simps [of n])

lemma foldl_digits_acc:
  "foldl (\<lambda>a c. 10 * a + digit_val c) a xs =
   a * 10 ^ length xs + foldl (\<lambda>a c. 10 * a + digit_val c) 0 xs"
proof (induction xs arbitrary: a)
  case Nil
  then show ?case by simp
next
  case (Cons x xs)
  show ?case
    using Cons.IH [of "10 * a + digit_val x"] Cons.IH [of "digit_val x"]
    by (simp add: algebra_simps)
qed

lemma digits_val_append:
  "digits_val (xs @ ys) = digits_val xs * 10 ^ length ys + digits_val ys"
  using foldl_digits_acc [of "digits_val xs" ys] by (simp add: digits_val_def)

lemma digits_val_single: "digits_val [c] = digit_val c"
  by (simp add: digits_val_def)

lemma digits_val_nat_digits: "digits_val (nat_digits n) = n"
proof (induction n rule: nat_digits.induct)
  case (1 n)
  show ?case
  proof (cases "n < 10")
    case True
    then show ?thesis
      by (simp add: nat_digits.simps [of n] digits_val_single digit_char_props)
  next
    case False
    then have "n mod 10 < 10" by simp
    with False 1 show ?thesis
      by (simp add: nat_digits.simps [of n] digits_val_append digits_val_single digit_char_props)
  qed
qed

lemma digits_val_zeros_append: "digits_val (replicate j (CHR ''0'') @ xs) = digits_val xs"
proof -
  have "digits_val (replicate j (CHR ''0'')) = 0"
    by (simp add: digits_val_def foldl_zeros)
  then show ?thesis
    by (simp add: digits_val_append)
qed


lemma is_digit_not_special:
  "is_digit c \<Longrightarrow> \<not> is_space c \<and> c \<noteq> CHR ''-'' \<and> c \<noteq> CHR ''+'' \<and> c \<noteq> CHR ''I'' \<and> c \<noteq> CHR ''.''"
  by (auto simp: is_digit_def is_space_def)

lemma takeWhile_digits_dot:
  "\<forall>c\<in>set a. is_digit c \<Longrightarrow> takeWhile is_digit (a @ CHR ''.'' # b) = a"
  by (simp add: takeWhile_append2)

lemma dropWhile_digits_dot:
  "\<forall>c\<in>set a. is_digit c \<Longrightarrow> dropWhile is_digit (a @ CHR ''.'' # b) = CHR ''.'' # b"
  by (simp add: dropWhile_append2)

lemma takeWhile_all_digits: "\<forall>c\<in>set b. is_digit c \<Longrightarrow> takeWhile is_digit b = b"
  by (simp add: takeWhile_eq_all_conv)

lemma dropWhile_all_digits: "\<forall>c\<in>set b. is_digit c \<Longrightarrow> dropWhile is_digit b = []"
  by simp

lemma parseFloat_decimal:
  assumes a: "\<forall>c\<in>set a. is_digit c" "a \<noteq> []" and b: "\<forall>c\<in>set b. is_digit c"
  shows "parseFloat (a @ CHR ''.'' # b) =
           fl False (of_nat (digits_val (a @ b)) * pow10 (- int (length b)))"
    and "parseFloat (CHR ''-'' # a @ CHR ''.'' # b) =
           fl True (of_nat (digits_val (a @ b)) * pow10 (- int (length b)))"
proof -
  obtain c a' where ca: "a = c # a'" using a(2) by (cases a) auto
  then have c: "is_digit c" and a': "\<forall>c\<in>set a'. is_digit c" using a(1) by simp_all
  note sp = is_digit_not_special [OF c]
  note tw = takeWhile_digits_dot [OF a', of b]
  note dw = dropWhile_digits_dot [OF a', of b]
  show "parseFloat (a @ CHR ''.'' # b) =
           fl False (of_nat (digits_val (a @ b)) * pow10 (- int (length b)))"
    unfolding ca using sp c
    by (simp add: parseFloat_def tw dw takeWhile_all_digits [OF b] dropWhile_all_digits [OF b]
        exponent_part_def Let_def)
  show "parseFloat (CHR ''-'' # a @ CHR ''.'' # b) =
           fl True (of_nat (digits_val (a @ b)) * pow10 (- int (length b)))"
    unfolding ca using sp c
    by (simp add: parseFloat_def is_space_def tw dw takeWhile_all_digits [OF b]
        dropWhile_all_digits [OF b] exponent_part_def Let_def)
qed

lemma parseFloat_integer:
  assumes a: "\<forall>c\<in>set a. is_digit c" "a \<noteq> []"
  shows "parseFloat a = fl False (of_nat (digits_val a))"
    and "parseFloat (CHR ''-'' # a) = fl True (of_nat (digits_val a))"
proof -
  obtain c a' where ca: "a = c # a'" using a(2) by (cases a) auto
  then have c: "is_digit c" and a': "\<forall>c\<in>set a'. is_digit c" using a(1) by simp_all
  note sp = is_digit_not_special [OF c]
  note tw = takeWhile_all_digits [OF a']
  note dw = dropWhile_all_digits [OF a']
  show "parseFloat a = fl False (of_nat (digits_val a))"
    unfolding ca using sp c
    by (simp add: parseFloat_def tw dw exponent_part_def Let_def pow10_def)
  show "parseFloat (CHR ''-'' # a) = fl True (of_nat (digits_val a))"
    unfolding ca using sp c
    by (simp add: parseFloat_def is_space_def tw dw exponent_part_def Let_def pow10_def)
qed


lemma pow10_nat: "pow10 (int f) = 10 ^ f"
  by (simp add: pow10_def)

lemma pow10_neg_nat: "pow10 (- int f) = 1 / 10 ^ f"
proof (cases "f = 0")
  case True
  then show ?thesis by (simp add: pow10_def)
next
  case False
  then have "\<not> 0 \<le> - int f" by simp
  then show ?thesis by (simp add: pow10_def)
qed

text \<open>Reading back the digits that \<open>toFixed\<close> prints.\<close>

lemma parseFloat_fixed_digits:
  fixes x :: rat and f :: nat
  defines "N \<equiv> nat \<lfloor>x * 10 ^ f + 1 / 2\<rfloor>"
  shows "parseFloat (fixed_digits x f) = fl False (of_nat N / 10 ^ f)"
    and "parseFloat (CHR ''-'' # fixed_digits x f) = fl True (of_nat N / 10 ^ f)"
proof -
  define m where "m = (if length (nat_digits N) \<le> f
      then replicate (f + 1 - length (nat_digits N)) (CHR ''0'') @ nat_digits N
      else nat_digits N)"
  have fd: "fixed_digits x f =
      (if f = 0 then m else take (length m - f) m @ CHR ''.'' # drop (length m - f) m)"
    by (simp add: fixed_digits_def N_def m_def pow10_nat Let_def)
  have digs: "\<forall>c\<in>set m. is_digit c"
    using nat_digits_all_digits [of N] by (auto simp: m_def)
  have val: "digits_val m = N"
    by (simp add: m_def digits_val_zeros_append digits_val_nat_digits)
  have len: "f < length m"
    using nat_digits_nonempty [of N] by (cases "nat_digits N") (auto simp: m_def)
  show "parseFloat (fixed_digits x f) = fl False (of_nat N / 10 ^ f)"
    and "parseFloat (CHR ''-'' # fixed_digits x f) = fl True (of_nat N / 10 ^ f)"
  proof -
    let ?a = "take (length m - f) m" and ?b = "drop (length m - f) m"
    have a: "\<forall>c\<in>set ?a. is_digit c" using digs by (meson in_set_takeD)
    have b: "\<forall>c\<in>set ?b. is_digit c" using digs by (meson in_set_dropD)
    have ane: "?a \<noteq> []" using len by (cases m) auto
    have lb: "length ?b = f" using len by simp
    have mne: "m \<noteq> []" using len by (cases m) auto
    have ab: "?a @ ?b = m" by simp
    have pos: "parseFloat (?a @ CHR ''.'' # ?b) =
        fl False (of_nat (digits_val m) * pow10 (- int f))"
      using parseFloat_decimal(1) [OF a ane b] unfolding ab lb .
    have neg: "parseFloat (CHR ''-'' # ?a @ CHR ''.'' # ?b) =
        fl True (of_nat (digits_val m) * pow10 (- int f))"
      using parseFloat_decimal(2) [OF a ane b] unfolding ab lb .
    show "parseFloat (fixed_digits x f) = fl False (of_nat N / 10 ^ f)"
    proof (cases "f = 0")
      case True
      with fd have "fixed_digits x f = m" by simp
      then show ?thesis
        using parseFloat_integer(1) [OF digs mne] True by (simp add: val)
    next
      case False
      with fd have "fixed_digits x f = ?a @ CHR ''.'' # ?b" by simp
      then show ?thesis
        by (simp only: pos val pow10_neg_nat times_divide_eq_right mult_1_right)
    qed
    show "parseFloat (CHR ''-'' # fixed_digits x f) = fl True (of_nat N / 10 ^ f)"
    proof (cases "f = 0")
      case True
      with fd have "fixed_digits x f = m" by simp
      then show ?thesis
        using parseFloat_integer(2) [OF digs mne] True by (simp add: val)
    next
      case False
      with fd have "fixed_digits x f = ?a @ CHR ''.'' # ?b" by simp
      then show ?thesis
        by (simp only: neg val pow10_neg_nat times_divide_eq_right mult_1_right)
    qed
  qed
qed

lemma parseFloat_special:
  "parseFloat ''NaN'' = NaN" "parseFloat ''Infinity'' = PosInf" "parseFloat ''-Infinity'' = NegInf"
  by (simp_all add: str_eval js_inf_def cong: eval_cong)


subsection \<open>Numbers of 22 digits and more\<close>

lemma declen_upper: "n < 10 ^ declen n"
proof (induction n rule: declen.induct)
  case (1 n)
  show ?case
  proof (cases "n = 0")
    case True
    then show ?thesis by (simp add: declen.simps [of n])
  next
    case False
    with 1 have "n div 10 < 10 ^ declen (n div 10)" by simp
    then have "n < 10 * 10 ^ declen (n div 10)" by linarith
    with False show ?thesis by (simp add: declen.simps [of n])
  qed
qed

lemma ilog10_upper:
  assumes "1 \<le> q"
  shows "q < 10 ^ nat (ilog10 q + 1)"
proof -
  define m where "m = nat \<lfloor>q\<rfloor>"
  have il: "ilog10 q + 1 = int (declen m)"
    using assms by (simp add: ilog10_def m_def)
  have "0 \<le> \<lfloor>q\<rfloor>" using assms by simp
  then have "of_nat m = (of_int \<lfloor>q\<rfloor> :: rat)" by (simp add: m_def)
  then have "q < of_nat m + 1" by linarith
  also have "of_nat m + 1 \<le> (of_nat (10 ^ declen m) :: rat)"
  proof -
    have "Suc m \<le> 10 ^ declen m" using declen_upper [of m] by simp
    then have "(of_nat (Suc m) :: rat) \<le> of_nat (10 ^ declen m)"
      by (simp only: of_nat_le_iff)
    then show ?thesis by simp
  qed
  finally show ?thesis by (simp add: il)
qed

lemma ilog10_lower:
  assumes "10 ^ j \<le> q"
  shows "int j \<le> ilog10 q"
proof -
  define m where "m = nat \<lfloor>q\<rfloor>"
  have q1: "1 \<le> q"
    using assms by (meson one_le_numeral one_le_power order_trans)
  have il: "ilog10 q + 1 = int (declen m)"
    using q1 by (simp add: ilog10_def m_def)
  have "(of_int (10 ^ j) :: rat) \<le> q" using assms by simp
  then have "(10 ^ j :: int) \<le> \<lfloor>q\<rfloor>" by (simp only: le_floor_iff)
  then have "10 ^ j \<le> m" by (simp add: m_def le_nat_iff)
  also have "m < 10 ^ declen m" by (rule declen_upper)
  finally have "j < declen m" by simp
  with il show ?thesis by linarith
qed

lemma first_some_Some: "first_some f xs = Some y \<Longrightarrow> \<exists>x\<in>set xs. f x = Some y"
  by (induction xs) (auto split: option.splits)

lemma nat_digits_length: "n < 10 ^ j \<Longrightarrow> 0 < j \<Longrightarrow> length (nat_digits n) \<le> j"
proof (induction n arbitrary: j rule: nat_digits.induct)
  case (1 n)
  show ?case
  proof (cases "n < 10")
    case True
    with 1(3) show ?thesis by (simp add: nat_digits.simps [of n])
  next
    case False
    obtain i where j: "j = Suc i" using 1(3) by (cases j) auto
    have "i \<noteq> 0"
    proof
      assume "i = 0"
      with 1(2) j have "n < 10" by simp
      with False show False by simp
    qed
    moreover have "n div 10 < 10 ^ i" using 1(2) j by (simp add: less_mult_imp_div_less)
    ultimately have "length (nat_digits (n div 10)) \<le> i" using 1(1) [OF False] by simp
    with False j show ?thesis by (simp add: nat_digits.simps [of n])
  qed
qed


lemma leading_digits_bound:
  assumes q: "(10::rat) ^ 21 \<le> q" and k: "k \<le> 17"
  shows "nat \<lfloor>q / pow10 (ilog10 q + 1 - int k)\<rfloor> < 10 ^ k"
proof -
  have q1: "1 \<le> q"
    using q by (meson one_le_numeral one_le_power order_trans)
  have lo: "21 \<le> ilog10 q" using ilog10_lower [OF q] by simp
  define d where "d = nat (ilog10 q + 1 - int k)"
  have nk: "nat (ilog10 q + 1) = d + k" using lo k by (simp add: d_def)
  have p: "pow10 (ilog10 q + 1 - int k) = 10 ^ d"
    using lo k by (simp add: pow10_def d_def)
  have "q < 10 ^ (d + k)" using ilog10_upper [OF q1] by (simp add: nk)
  then have "q / 10 ^ d < 10 ^ k"
    by (simp add: power_add divide_less_eq mult.commute)
  then have "\<lfloor>q / 10 ^ d\<rfloor> < 10 ^ k"
    by (metis floor_less_iff of_int_numeral of_int_power)
  then show ?thesis
    by (simp add: p nat_less_iff)
qed

lemma digits_at_large:
  assumes q: "(10::rat) ^ 21 \<le> q" and k: "1 \<le> k" "k \<le> 17"
    and d: "digits_at q k = Some (s, n)"
  shows "22 \<le> n \<and> s < 10 ^ 17"
proof -
  have lo: "21 \<le> ilog10 q" using ilog10_lower [OF q] by simp
  have b: "nat \<lfloor>q / pow10 (ilog10 q + 1 - int k)\<rfloor> < 10 ^ k"
    by (rule leading_digits_bound [OF q k(2)])
  have pk: "(10::nat) ^ k \<le> 10 ^ 17" using k(2) by (intro power_increasing) simp_all
  have pk1: "(10::nat) ^ (k - 1) < 10 ^ 17"
    using k by (intro power_strict_increasing) simp_all
  define lo where "lo = nat \<lfloor>q / pow10 (ilog10 q + 1 - int k)\<rfloor>"
  define A where "A \<longleftrightarrow>
    fl False (of_nat lo * pow10 (ilog10 q + 1 - int k)) = Fin q \<and>
    (if fl False (of_nat (lo + 1) * pow10 (ilog10 q + 1 - int k)) = Fin q
     then q - of_nat lo * pow10 (ilog10 q + 1 - int k)
            < of_nat (lo + 1) * pow10 (ilog10 q + 1 - int k) - q \<or>
          q - of_nat lo * pow10 (ilog10 q + 1 - int k)
            = of_nat (lo + 1) * pow10 (ilog10 q + 1 - int k) - q \<and> even lo
     else True)"
  define B where "B \<longleftrightarrow> fl False (of_nat (lo + 1) * pow10 (ilog10 q + 1 - int k)) = Fin q"
  have eq: "digits_at q k =
      (if A then Some (lo, ilog10 q + 1)
       else if B then Some (if lo + 1 = 10 ^ k then (10 ^ (k - 1), ilog10 q + 1 + 1)
                            else (lo + 1, ilog10 q + 1))
       else None)"
    unfolding digits_at_def Let_def A_def B_def lo_def by (rule refl)
  note b = b [folded lo_def]
  from d [unfolded eq] consider
      (c_lo) "s = lo" "n = ilog10 q + 1"
    | (c_hi) "s = lo + 1" "s \<noteq> 10 ^ k" "n = ilog10 q + 1"
    | (c_up) "s = 10 ^ (k - 1)" "n = ilog10 q + 1 + 1"
    by (auto split: if_splits)
  then show ?thesis
  proof cases
    case c_lo
    with b pk \<open>21 \<le> ilog10 q\<close> show ?thesis by simp
  next
    case c_hi
    with b have "s < 10 ^ k" by simp
    with pk c_hi \<open>21 \<le> ilog10 q\<close> show ?thesis by simp
  next
    case c_up
    with pk1 \<open>21 \<le> ilog10 q\<close> show ?thesis by simp
  qed
qed

lemma shortest_digits_large:
  assumes q: "(10::rat) ^ 21 \<le> q" and d: "shortest_digits q = (s, n)"
  shows "22 \<le> n \<and> s < 10 ^ 17"
proof (cases "first_some (digits_at q) [1 ..< 18]")
  case None
  have lo: "21 \<le> ilog10 q" using ilog10_lower [OF q] by simp
  have "nat \<lfloor>q / pow10 (ilog10 q + 1 - int 17)\<rfloor> < 10 ^ 17"
    by (rule leading_digits_bound [OF q]) simp
  with None d lo show ?thesis
    by (auto simp: shortest_digits_def)
next
  case (Some r)
  with d have r: "r = (s, n)" by (simp add: shortest_digits_def)
  from first_some_Some [OF Some] obtain k where "k \<in> set [1 ..< 18]" "digits_at q k = Some r"
    by blast
  then have "1 \<le> k" "k \<le> 17" "digits_at q k = Some (s, n)" using r by auto
  then show ?thesis using digits_at_large [OF q] by blast
qed


lemma not_is_digit_e [simp]: "\<not> is_digit (CHR ''e'')"
  by (simp add: is_digit_def)

lemma takeWhile_digits_e:
  "\<forall>c\<in>set a. is_digit c \<Longrightarrow> takeWhile is_digit (a @ CHR ''e'' # b) = a"
  by (simp add: takeWhile_append2)

lemma dropWhile_digits_e:
  "\<forall>c\<in>set a. is_digit c \<Longrightarrow> dropWhile is_digit (a @ CHR ''e'' # b) = CHR ''e'' # b"
  by (simp add: dropWhile_append2)

lemma exponent_part_plus:
  assumes "\<forall>c\<in>set ed. is_digit c" "ed \<noteq> []"
  shows "exponent_part (CHR ''e'' # CHR ''+'' # ed) = int (digits_val ed)"
  using assms by (simp add: exponent_part_def takeWhile_all_digits)

lemma parseFloat_exponent:
  assumes a: "\<forall>c\<in>set a. is_digit c" "a \<noteq> []" and b: "\<forall>c\<in>set b. is_digit c"
    and e: "\<forall>c\<in>set ed. is_digit c" "ed \<noteq> []"
  shows "parseFloat (a @ CHR ''e'' # CHR ''+'' # ed) =
           fl False (of_nat (digits_val a) * pow10 (int (digits_val ed)))"
    and "parseFloat (CHR ''-'' # a @ CHR ''e'' # CHR ''+'' # ed) =
           fl True (of_nat (digits_val a) * pow10 (int (digits_val ed)))"
    and "parseFloat (a @ CHR ''.'' # b @ CHR ''e'' # CHR ''+'' # ed) =
           fl False (of_nat (digits_val (a @ b)) * pow10 (int (digits_val ed) - int (length b)))"
    and "parseFloat (CHR ''-'' # a @ CHR ''.'' # b @ CHR ''e'' # CHR ''+'' # ed) =
           fl True (of_nat (digits_val (a @ b)) * pow10 (int (digits_val ed) - int (length b)))"
proof -
  obtain c a' where ca: "a = c # a'" using a(2) by (cases a) auto
  then have c: "is_digit c" and a': "\<forall>c\<in>set a'. is_digit c" using a(1) by simp_all
  note sp = is_digit_not_special [OF c]
  note ex = exponent_part_plus [OF e]
  note twe = takeWhile_digits_e [OF a', of "CHR ''+'' # ed"]
  note dwe = dropWhile_digits_e [OF a', of "CHR ''+'' # ed"]
  note twd = takeWhile_digits_dot [OF a', of "b @ CHR ''e'' # CHR ''+'' # ed"]
  note dwd = dropWhile_digits_dot [OF a', of "b @ CHR ''e'' # CHR ''+'' # ed"]
  note twb = takeWhile_digits_e [OF b, of "CHR ''+'' # ed"]
  note dwb = dropWhile_digits_e [OF b, of "CHR ''+'' # ed"]
  show "parseFloat (a @ CHR ''e'' # CHR ''+'' # ed) =
           fl False (of_nat (digits_val a) * pow10 (int (digits_val ed)))"
    unfolding ca using sp c
    by (simp add: parseFloat_def twe dwe ex Let_def)
  show "parseFloat (CHR ''-'' # a @ CHR ''e'' # CHR ''+'' # ed) =
           fl True (of_nat (digits_val a) * pow10 (int (digits_val ed)))"
    unfolding ca using sp c
    by (simp add: parseFloat_def is_space_def twe dwe ex Let_def)
  show "parseFloat (a @ CHR ''.'' # b @ CHR ''e'' # CHR ''+'' # ed) =
           fl False (of_nat (digits_val (a @ b)) * pow10 (int (digits_val ed) - int (length b)))"
    unfolding ca using sp c
    by (simp add: parseFloat_def twd dwd twb dwb ex Let_def)
  show "parseFloat (CHR ''-'' # a @ CHR ''.'' # b @ CHR ''e'' # CHR ''+'' # ed) =
           fl True (of_nat (digits_val (a @ b)) * pow10 (int (digits_val ed) - int (length b)))"
    unfolding ca using sp c
    by (simp add: parseFloat_def is_space_def twd dwd twb dwb ex Let_def)
qed


text \<open>A Number of magnitude \<open>10 ^ 21\<close> or more is printed, and read back, as an integer.\<close>

lemma parseFloat_format_large:
  assumes n: "22 \<le> n" and s: "s < 10 ^ 17"
  shows "\<exists>D::nat. parseFloat (format_digits s n) = fl False (of_nat D) \<and>
                  parseFloat (CHR ''-'' # format_digits s n) = fl True (of_nat D)"
proof -
  define ds where "ds = nat_digits s"
  define ed where "ed = nat_digits (nat (n - 1))"
  have dd: "\<forall>c\<in>set ds. is_digit c" and dne: "ds \<noteq> []" and dv: "digits_val ds = s"
    by (simp_all add: ds_def nat_digits_all_digits nat_digits_nonempty digits_val_nat_digits)
  have ee: "\<forall>c\<in>set ed. is_digit c" and ene: "ed \<noteq> []"
    and ev: "digits_val ed = nat (n - 1)"
    by (simp_all add: ed_def nat_digits_all_digits nat_digits_nonempty digits_val_nat_digits)
  have k17: "length ds \<le> 17"
    unfolding ds_def by (rule nat_digits_length [OF s]) simp
  have fmt: "format_digits s n =
      (if length ds = 1 then ds @ CHR ''e'' # CHR ''+'' # ed
       else take 1 ds @ CHR ''.'' # drop 1 ds @ CHR ''e'' # CHR ''+'' # ed)"
    using n by (simp add: format_digits_def ds_def ed_def Let_def)
  show ?thesis
  proof (cases "length ds = 1")
    case True
    have p: "pow10 (int (nat (n - 1))) = of_nat (10 ^ nat (n - 1))"
      by (simp add: pow10_def)
    have b0: "\<forall>c\<in>set []. is_digit c" by simp
    note pos1 = parseFloat_exponent(1) [OF dd dne b0 ee ene]
    note neg1 = parseFloat_exponent(2) [OF dd dne b0 ee ene]
    have f1: "format_digits s n = ds @ CHR ''e'' # CHR ''+'' # ed"
      using True fmt by simp
    have "parseFloat (format_digits s n) = fl False (of_nat (s * 10 ^ nat (n - 1)))"
      and "parseFloat (CHR ''-'' # format_digits s n) = fl True (of_nat (s * 10 ^ nat (n - 1)))"
      unfolding f1 by (simp_all only: pos1 neg1 dv ev p of_nat_mult)
    then show ?thesis by blast
  next
    case False
    let ?a = "take 1 ds" and ?b = "drop 1 ds"
    have a: "\<forall>c\<in>set ?a. is_digit c" using dd by (meson in_set_takeD)
    have b: "\<forall>c\<in>set ?b. is_digit c" using dd by (meson in_set_dropD)
    have ane: "?a \<noteq> []" using dne by simp
    have ab: "?a @ ?b = ds" by simp
    define j where "j = nat (n - 1) - length ?b"
    have lb: "length ?b \<le> 16" using k17 by simp
    have p: "pow10 (int (nat (n - 1)) - int (length ?b)) = of_nat (10 ^ j)"
      using n lb by (simp add: pow10_def j_def nat_diff_distrib' of_nat_diff)
    have pos: "parseFloat (?a @ CHR ''.'' # ?b @ CHR ''e'' # CHR ''+'' # ed) =
        fl False (of_nat (digits_val ds) * pow10 (int (digits_val ed) - int (length ?b)))"
      using parseFloat_exponent(3) [OF a ane b ee ene] unfolding ab .
    have neg: "parseFloat (CHR ''-'' # ?a @ CHR ''.'' # ?b @ CHR ''e'' # CHR ''+'' # ed) =
        fl True (of_nat (digits_val ds) * pow10 (int (digits_val ed) - int (length ?b)))"
      using parseFloat_exponent(4) [OF a ane b ee ene] unfolding ab .
    have f2: "format_digits s n = ?a @ CHR ''.'' # ?b @ CHR ''e'' # CHR ''+'' # ed"
      using False fmt by simp
    have "parseFloat (format_digits s n) = fl False (of_nat (s * 10 ^ j))"
      and "parseFloat (CHR ''-'' # format_digits s n) = fl True (of_nat (s * 10 ^ j))"
      unfolding f2 by (simp_all only: pos neg dv ev p of_nat_mult)
    then show ?thesis by blast
  qed
qed

lemma parseFloat_number_large:
  assumes "(10::rat) ^ 21 \<le> q"
  shows "\<exists>D::nat. parseFloat (number_to_string (Fin q)) = fl False (of_nat D) \<and>
                  parseFloat (CHR ''-'' # number_to_string (Fin q)) = fl True (of_nat D)"
proof -
  have q0: "0 < q" using assms by (meson less_le_trans zero_less_numeral zero_less_power)
  obtain s n where sn: "shortest_digits q = (s, n)" by (cases "shortest_digits q")
  from shortest_digits_large [OF assms sn] have "22 \<le> n" "s < 10 ^ 17" by simp_all
  from parseFloat_format_large [OF this] show ?thesis
    using q0 sn by simp
qed


subsection \<open>What the scaling branch returns\<close>

lemma fl_of_nat_decimal: "fl neg (of_nat D) = fl neg (of_nat (D * 10 ^ f) / 10 ^ f)"
  by simp

lemma convertValue_result:
  assumes cv: "convertValue this v = Inr r"
    and p: "toIntegerOrInfinity (precision this) = Some p"
  shows "r = NaN \<or> r = PosInf \<or> r = NegInf \<or> (\<exists>N neg. r = fl neg (of_nat N / 10 ^ nat p))"
    and "js_div v (baseSize this) = Fin q \<Longrightarrow> \<bar>q\<bar> < 10 ^ 21 \<Longrightarrow>
         r = fl (q < 0) (of_int \<lfloor>\<bar>q\<bar> * 10 ^ nat p + 1 / 2\<rfloor> / 10 ^ nat p)"
proof -
  define x where "x = js_div v (baseSize this)"
  define f where "f = nat p"
  have ok: "\<not> (p < 0 \<or> 100 < p)"
    using cv p by (auto simp: convertValue_def toFixed_def split: if_splits)
  have r: "r = parseFloat (case x of
        NaN \<Rightarrow> ''NaN''
      | PosInf \<Rightarrow> ''Infinity''
      | NegInf \<Rightarrow> ''-Infinity''
      | NegZero \<Rightarrow> fixed_digits 0 f
      | Fin q \<Rightarrow>
          (if q < 0 then ''-'' else []) @
          (if pow10 21 \<le> \<bar>q\<bar> then number_to_string (Fin \<bar>q\<bar>)
           else fixed_digits \<bar>q\<bar> f))"
    unfolding x_def f_def using cv p ok
    by (auto simp: convertValue_def toFixed_def split: if_splits)
  have p21: "pow10 21 = 10 ^ 21" by (simp add: pow10_def)
  have small: "r = fl (q < 0) (of_nat (nat \<lfloor>\<bar>q\<bar> * 10 ^ f + 1 / 2\<rfloor>) / 10 ^ f)"
    if "x = Fin q" "\<bar>q\<bar> < 10 ^ 21" for q
  proof -
    define a where "a = \<bar>q\<bar>"
    have r': "r = parseFloat ((if q < 0 then ''-'' else []) @ fixed_digits a f)"
      using that by (simp add: r p21 a_def)
    show ?thesis
    proof (cases "q < 0")
      case True
      then have "r = parseFloat (CHR ''-'' # fixed_digits a f)" by (simp add: r')
      with True show ?thesis
        by (simp only: parseFloat_fixed_digits(2) a_def [symmetric])
    next
      case False
      then have "r = parseFloat (fixed_digits a f)" by (simp add: r')
      with False show ?thesis
        by (simp only: parseFloat_fixed_digits(1) a_def [symmetric])
    qed
  qed
  have nn: "of_nat (nat \<lfloor>\<bar>q\<bar> * 10 ^ f + 1 / 2\<rfloor>) = (of_int \<lfloor>\<bar>q\<bar> * 10 ^ f + 1 / 2\<rfloor> :: rat)"
    for q :: rat
  proof -
    have "0 \<le> \<bar>q\<bar> * 10 ^ f + 1 / 2" by simp
    then have "0 \<le> \<lfloor>\<bar>q\<bar> * 10 ^ f + 1 / 2\<rfloor>" by (simp only: zero_le_floor)
    then show ?thesis by simp
  qed
  show "js_div v (baseSize this) = Fin q \<Longrightarrow> \<bar>q\<bar> < 10 ^ 21 \<Longrightarrow>
         r = fl (q < 0) (of_int \<lfloor>\<bar>q\<bar> * 10 ^ nat p + 1 / 2\<rfloor> / 10 ^ nat p)"
  proof -
    assume "js_div v (baseSize this) = Fin q" "\<bar>q\<bar> < 10 ^ 21"
    then have "r = fl (q < 0) (of_nat (nat \<lfloor>\<bar>q\<bar> * 10 ^ f + 1 / 2\<rfloor>) / 10 ^ f)"
      using small [of q] by (simp only: x_def)
    then have "r = fl (q < 0) (of_int \<lfloor>\<bar>q\<bar> * 10 ^ f + 1 / 2\<rfloor> / 10 ^ f)"
      by (simp only: nn)
    then show ?thesis
      unfolding f_def .
  qed
  show "r = NaN \<or> r = PosInf \<or> r = NegInf \<or> (\<exists>N neg. r = fl neg (of_nat N / 10 ^ nat p))"
  proof (cases x)
    case NaN
    then show ?thesis by (simp add: r parseFloat_special)
  next
    case PosInf
    then show ?thesis by (simp add: r parseFloat_special)
  next
    case NegInf
    then show ?thesis by (simp add: r parseFloat_special)
  next
    case NegZero
    then have "r = fl False (of_nat 0 / 10 ^ f)"
      by (simp add: r parseFloat_fixed_zero fl_zero js_zero_def)
    then show ?thesis unfolding f_def by blast
  next
    case (Fin q)
    show ?thesis
    proof (cases "\<bar>q\<bar> < 10 ^ 21")
      case True
      from small [OF Fin True] show ?thesis unfolding f_def by blast
    next
      case False
      then have big: "10 ^ 21 \<le> \<bar>q\<bar>" by simp
      from parseFloat_number_large [OF big] obtain D :: nat
        where D: "parseFloat (number_to_string (Fin \<bar>q\<bar>)) = fl False (of_nat D)"
          "parseFloat (CHR ''-'' # number_to_string (Fin \<bar>q\<bar>)) = fl True (of_nat D)"
        by blast
      define ns where "ns = number_to_string (Fin \<bar>q\<bar>)"
      have r': "r = parseFloat ((if q < 0 then ''-'' else []) @ ns)"
        using Fin big by (simp add: r p21 ns_def del: number_to_string.simps)
      have "r = fl (q < 0) (of_nat D)"
        using D [folded ns_def] by (cases "q < 0") (simp_all add: r')
      then have "r = fl (q < 0) (of_nat (D * 10 ^ f) / 10 ^ f)"
        by (simp only: fl_of_nat_decimal [symmetric])
      then show ?thesis unfolding f_def by blast
    qed
  qed
qed

subsection \<open>Binary64 values\<close>

text \<open>
  A finite result of \<open>fl\<close> of magnitude 2 or more is an integer of 53 bits times a power
  of two, and every rational close enough to such a value is rounded to it.
\<close>

lemma pow2_powi: "pow2 e = 2 powi e"
  by (simp add: pow2_def power_int_def field_simps)

lemma bitlen_upper: "n < 2 ^ bitlen n"
proof (induction n rule: bitlen.induct)
  case (1 n)
  show ?case
  proof (cases "n = 0")
    case True
    then show ?thesis by (simp add: bitlen.simps [of n])
  next
    case False
    with 1 have "n div 2 < 2 ^ bitlen (n div 2)" by simp
    then have "n < 2 * 2 ^ bitlen (n div 2)" by linarith
    with False show ?thesis by (simp add: bitlen.simps [of n])
  qed
qed

lemma bitlen_lower: "0 < n \<Longrightarrow> 2 ^ (bitlen n - 1) \<le> n"
proof (induction n rule: bitlen.induct)
  case (1 n)
  show ?case
  proof (cases "n div 2 = 0")
    case True
    with 1(2) have "n = 1" by linarith
    then show ?thesis by (simp add: bitlen.simps [of "Suc 0"] bitlen.simps [of 0])
  next
    case False
    then have pos: "0 < n div 2" by simp
    with 1 have ih: "2 ^ (bitlen (n div 2) - 1) \<le> n div 2" by simp
    have "0 < bitlen (n div 2)" using pos by (simp add: bitlen.simps [of "n div 2"])
    then have "bitlen n - 1 = Suc (bitlen (n div 2) - 1)"
      using 1(2) by (simp add: bitlen.simps [of n])
    with ih show ?thesis by simp
  qed
qed

lemma ilog2_bounds:
  assumes "1 \<le> m"
  shows "0 \<le> ilog2 m" "2 powi (ilog2 m) \<le> m" "m < 2 powi (ilog2 m + 1)"
proof -
  define k where "k = nat \<lfloor>m\<rfloor>"
  have k0: "0 < k" using assms by (simp add: k_def)
  have il: "ilog2 m = int (bitlen k) - 1"
    using assms by (simp add: ilog2_def k_def)
  have bl: "0 < bitlen k" using k0 by (simp add: bitlen.simps [of k])
  then show "0 \<le> ilog2 m" by (simp add: il)
  have il': "ilog2 m = int (bitlen k - 1)" using bl by (simp add: il)
  have "0 \<le> \<lfloor>m\<rfloor>" using assms by simp
  then have km: "of_nat k = (of_int \<lfloor>m\<rfloor> :: rat)" by (simp add: k_def)
  have "(of_nat (2 ^ (bitlen k - 1)) :: rat) \<le> of_nat k"
    using bitlen_lower [OF k0] by (simp only: of_nat_le_iff)
  also have "\<dots> \<le> m" by (simp add: km)
  finally show "2 powi (ilog2 m) \<le> m"
    by (simp add: il' power_int_of_nat)
  have "m < of_nat k + 1" using km by linarith
  also have "of_nat k + 1 \<le> (of_nat (2 ^ bitlen k) :: rat)"
  proof -
    have "Suc k \<le> 2 ^ bitlen k" using bitlen_upper [of k] by simp
    then have "(of_nat (Suc k) :: rat) \<le> of_nat (2 ^ bitlen k)"
      by (simp only: of_nat_le_iff)
    then show ?thesis by simp
  qed
  finally show "m < 2 powi (ilog2 m + 1)"
    by (simp add: il power_int_of_nat)
qed

lemma ilog2_unique:
  assumes m: "1 \<le> m" and e: "0 \<le> e" and lo: "2 powi e \<le> m" and hi: "m < 2 powi (e + 1)"
  shows "ilog2 m = e"
proof -
  note b = ilog2_bounds [OF m]
  have "(2::rat) powi e < 2 powi (ilog2 m + 1)" using lo b(3) by linarith
  then have 1: "e < ilog2 m + 1"
    using b(1) by (intro power_int_le_imp_less_exp [of "2::rat"]) simp_all
  have "(2::rat) powi (ilog2 m) < 2 powi (e + 1)" using hi b(2) by linarith
  then have 2: "ilog2 m < e + 1"
    using e by (intro power_int_le_imp_less_exp [of "2::rat"]) simp_all
  from 1 2 show ?thesis by linarith
qed

lemma round_half_even_near:
  assumes "\<bar>x - of_int n\<bar> < 1 / 2"
  shows "round_half_even x = n"
proof (cases "of_int n \<le> x")
  case True
  with assms have "of_int n \<le> x" "x < of_int n + 1" by linarith+
  then have f: "\<lfloor>x\<rfloor> = n" by linarith
  with assms True show ?thesis by (simp add: round_half_even_def Let_def)
next
  case False
  with assms have "of_int (n - 1) \<le> x" "x < of_int (n - 1) + 1" by simp_all
  then have f: "\<lfloor>x\<rfloor> = n - 1" by linarith
  have "1 / 2 < x - of_int (n - 1)" using assms False by simp
  with f show ?thesis by (simp add: round_half_even_def Let_def)
qed

lemma round_half_even_int: "round_half_even (of_int n) = n"
  by (rule round_half_even_near) simp

lemma round_mag_normal:
  assumes "1 \<le> m"
  shows "round_mag m =
    of_int (round_half_even (m / (2 powi (ilog2 m) / 2 ^ 52))) * (2 powi (ilog2 m) / 2 ^ 52)"
proof -
  have "max (ilog2 m) (- 1022) = ilog2 m" using ilog2_bounds(1) [OF assms] by simp
  then show ?thesis
    by (simp add: round_mag_def Let_def pow2_powi power_int_diff)
qed

text \<open>A binary64 value of magnitude 2 or more: 53 bits times a power of two.\<close>

lemma round_mag_near:
  fixes q m :: rat and N e :: int
  assumes e: "1 \<le> e" and N: "2 ^ 52 \<le> N" "N < 2 ^ 53"
    and q: "q = of_int N * (2 powi e / 2 ^ 52)"
    and near: "\<bar>m - q\<bar> * 2 ^ 54 < q"
  shows "round_mag m = q"
proof -
  define P :: rat where "P = 2 powi e"
  define u :: rat where "u = P / 2 ^ 52"
  have P2: "2 \<le> P"
    using power_int_increasing [of 1 e "2::rat"] e by (simp add: P_def)
  have Pu: "P = 2 ^ 52 * u" by (simp add: u_def)
  have u0: "0 < u" using P2 by (simp add: u_def)
  have qN: "q = of_int N * u" by (simp add: q u_def P_def)
  have "(of_int (2 ^ 52) :: rat) \<le> of_int N" using N(1) by (simp only: of_int_le_iff)
  then have N1: "(2 ^ 52 :: rat) \<le> of_int N" by simp
  have "(of_int N :: rat) \<le> of_int (2 ^ 53 - 1)" using N(2) by (simp only: of_int_le_iff)
  then have N2: "(of_int N :: rat) \<le> 2 ^ 53 - 1" by simp
  have qlo: "P \<le> q" unfolding qN Pu using N1 u0 by simp
  have qhi: "q \<le> 2 * P - u"
  proof -
    have "of_int N * u \<le> (2 ^ 53 - 1) * u" using N2 u0 by simp
    then show ?thesis unfolding qN Pu by (simp add: algebra_simps)
  qed
  have q54: "q < 2 ^ 54 * (u / 2)"
    using qhi u0 unfolding Pu by simp
  have d: "\<bar>m - q\<bar> < u / 2"
  proof -
    have "\<bar>m - q\<bar> * 2 ^ 54 < 2 ^ 54 * (u / 2)" using near q54 by linarith
    then show ?thesis by simp
  qed
  have P1: "2 powi (e + 1) = 2 * P"
    by (simp add: P_def power_int_add)
  have Pm: "2 powi (e - 1) = P / 2"
    by (simp add: P_def power_int_diff)
  show ?thesis
  proof (cases "m < P")
    case False
    then have mlo: "P \<le> m" by simp
    have mhi: "m < 2 * P" using d qhi by linarith
    have m1: "1 \<le> m" using mlo P2 by linarith
    have il: "ilog2 m = e"
      using e mlo mhi by (intro ilog2_unique [OF m1]) (simp_all add: P_def [symmetric] P1)
    have "m / u - of_int N = (m - q) / u"
      using u0 by (simp add: qN diff_divide_distrib)
    then have "\<bar>m / u - of_int N\<bar> = \<bar>m - q\<bar> / u"
      using u0 by (simp only: abs_divide abs_of_pos)
    also have "\<dots> < 1 / 2" using d u0 by (simp add: divide_less_eq)
    finally have r: "round_half_even (m / u) = N" by (rule round_half_even_near)
    have "round_mag m = of_int (round_half_even (m / u)) * u"
      unfolding round_mag_normal [OF m1] il u_def P_def by (rule refl)
    then show ?thesis
      by (simp only: r qN)
  next
    case True
    then have "m < q" using qlo by linarith
    have NP: "N = 2 ^ 52"
    proof (rule ccontr)
      assume "N \<noteq> 2 ^ 52"
      with N(1) have "2 ^ 52 + 1 \<le> N" by linarith
      then have "(of_int (2 ^ 52 + 1) :: rat) \<le> of_int N" by (simp only: of_int_le_iff)
      then have "(2 ^ 52 + 1) * u \<le> of_int N * u" using u0 by simp
      then have "P + u \<le> q" unfolding qN Pu by (simp add: algebra_simps)
      with d True show False by linarith
    qed
    then have qP: "q = P" by (simp add: qN Pu)
    have d4: "\<bar>m - q\<bar> < u / 4"
    proof -
      have "q = 2 ^ 54 * (u / 4)" unfolding qP Pu by simp
      with near have "\<bar>m - q\<bar> * 2 ^ 54 < 2 ^ 54 * (u / 4)" by linarith
      then show ?thesis by simp
    qed
    have "u / 4 \<le> P / 2" using u0 unfolding Pu by simp
    then have mlo: "P / 2 \<le> m" using d4 qP by linarith
    have m1: "1 \<le> m" using mlo P2 by linarith
    have e1: "0 \<le> e - 1" using e by simp
    have il: "ilog2 m = e - 1"
      using mlo True by (intro ilog2_unique [OF m1 e1]) (simp_all add: Pm P_def [symmetric])
    have "m / (u / 2) - of_int (2 ^ 53) = (m - q) / (u / 2)"
      using u0 by (simp add: qP Pu diff_divide_distrib)
    moreover have "0 < u / 2" using u0 by simp
    ultimately have "\<bar>m / (u / 2) - of_int (2 ^ 53)\<bar> = \<bar>m - q\<bar> / (u / 2)"
      by (simp only: abs_divide abs_of_pos)
    also have "\<dots> < 1 / 2" using d4 u0 by (simp add: divide_less_eq)
    finally have r: "round_half_even (m / (u / 2)) = 2 ^ 53" by (rule round_half_even_near)
    have ulp: "2 powi (e - 1) / 2 ^ 52 = u / 2" by (simp add: Pm u_def)
    have "round_mag m = of_int (round_half_even (m / (u / 2))) * (u / 2)"
      unfolding round_mag_normal [OF m1] il ulp by (rule refl)
    then have "round_mag m = of_int (2 ^ 53) * (u / 2)"
      by (simp only: r)
    then show ?thesis
      by (simp add: qP Pu)
  qed
qed

lemma round_half_even_ge: "of_int n \<le> x \<Longrightarrow> n \<le> round_half_even x"
proof -
  assume "of_int n \<le> x"
  then have "n \<le> \<lfloor>x\<rfloor>" by (simp only: le_floor_iff)
  then show ?thesis by (simp add: round_half_even_def Let_def)
qed

lemma round_half_even_le: "x \<le> of_int n \<Longrightarrow> round_half_even x \<le> n"
proof (cases "x = of_int n")
  case True
  then show ?thesis by (simp add: round_half_even_int)
next
  case False
  assume "x \<le> of_int n"
  with False have "x < of_int n" by simp
  then have "\<lfloor>x\<rfloor> < n" by (simp only: floor_less_iff)
  then show ?thesis by (simp add: round_half_even_def Let_def)
qed

lemma round_half_even_upper: "of_int (round_half_even x) \<le> x + 1"
proof -
  have "of_int \<lfloor>x\<rfloor> \<le> x" by simp
  then show ?thesis by (simp add: round_half_even_def Let_def) linarith
qed

lemma ilog2_small: "m < 1 \<Longrightarrow> ilog2 m \<le> 0"
  by (simp add: ilog2_def)

text \<open>
  The magnitude of a finite result of \<open>fl\<close>, when it is 2 or more, is a binary64 value:
  an integer of 53 bits times a power of two, below \<open>2 ^ 1024\<close>.
\<close>

lemma fl_repr:
  fixes m r :: rat
  assumes f: "fl neg m = Fin r" and m0: "0 < m" and r2: "2 \<le> \<bar>r\<bar>"
  shows "\<exists>(N::int) e::int. 1 \<le> e \<and> 2 ^ 52 \<le> N \<and> N < 2 ^ 53 \<and>
           \<bar>r\<bar> = of_int N * (2 powi e / 2 ^ 52) \<and> \<bar>r\<bar> < 2 ^ 1024"
proof -
  define R where "R = round_mag m"
  have mne: "m \<noteq> 0" using m0 by simp
  have fl': "fl neg m =
      (if pow2 1024 \<le> R then js_inf neg
       else if R = 0 then js_zero neg else Fin (if neg then - R else R))"
    using mne by (simp add: fl_def R_def Let_def)
  have big: "\<not> pow2 1024 \<le> R"
    using f unfolding fl' by (auto simp: js_inf_def split: if_splits)
  have r: "r = (if neg then - R else R)"
    using f big unfolding fl' by (auto simp: js_zero_def split: if_splits)
  have absr: "\<bar>r\<bar> = \<bar>R\<bar>" by (simp add: r)
  have m1: "1 \<le> m"
  proof (rule ccontr)
    assume "\<not> 1 \<le> m"
    then have lt: "m < 1" by simp
    define e where "e = max (ilog2 m) (- 1022)"
    define u where "u = pow2 (e - 52)"
    have "e \<le> 0" using ilog2_small [OF lt] by (simp add: e_def)
    then have "(2::rat) powi (e - 52) \<le> 2 powi 0"
      by (intro power_int_increasing) simp_all
    then have u1: "u \<le> 1" by (simp add: u_def pow2_powi)
    have u0: "0 < u" by (simp add: u_def pow2_powi zero_less_power_int)
    have R': "R = of_int (round_half_even (m / u)) * u"
      by (simp add: R_def round_mag_def e_def u_def Let_def)
    have "0 \<le> m / u" using m0 u0 by simp
    then have "of_int 0 \<le> m / u" by simp
    then have "0 \<le> round_half_even (m / u)" by (rule round_half_even_ge)
    then have R0: "0 \<le> R" using u0 by (simp add: R')
    have "of_int (round_half_even (m / u)) * u \<le> (m / u + 1) * u"
      using round_half_even_upper [of "m / u"] u0 by (simp only: mult_le_cancel_right_pos)
    also have "\<dots> = m + u" using u0 by (simp add: algebra_simps)
    finally have "R < 2" using lt u1 by (simp add: R')
    with R0 absr r2 show False by simp
  qed
  define e where "e = ilog2 m"
  define u :: rat where "u = 2 powi e / 2 ^ 52"
  note b = ilog2_bounds [OF m1, folded e_def]
  have P0: "(0::rat) < 2 powi e" by (simp add: zero_less_power_int)
  have u0: "0 < u" using P0 by (simp add: u_def)
  have Pu: "2 powi e = 2 ^ 52 * u" by (simp add: u_def)
  have P1: "(2::rat) powi (e + 1) = 2 ^ 53 * u"
    by (simp add: power_int_add u_def)
  define N where "N = round_half_even (m / u)"
  have R': "R = of_int N * u"
    unfolding R_def round_mag_normal [OF m1] N_def u_def e_def by (rule refl)
  have "of_int (2 ^ 52) \<le> m / u"
    using b(2) u0 unfolding Pu by (simp add: le_divide_eq mult.commute)
  then have N1: "2 ^ 52 \<le> N" unfolding N_def by (rule round_half_even_ge)
  have "m / u \<le> of_int (2 ^ 53)"
    using b(3) u0 unfolding P1 by (simp add: divide_le_eq mult.commute)
  then have N2: "N \<le> 2 ^ 53" unfolding N_def by (rule round_half_even_le)
  have "0 < N" using N1 by simp
  then have R0: "0 < R" using u0 by (simp add: R')
  then have aR: "\<bar>r\<bar> = R" using absr by simp
  have lim: "\<bar>r\<bar> < 2 ^ 1024" using big by (simp add: aR pow2_def)
  show ?thesis
  proof (cases "N = 2 ^ 53")
    case True
    have R2: "\<bar>r\<bar> = of_int (2 ^ 52) * (2 powi (e + 1) / 2 ^ 52)"
      unfolding aR by (simp add: R' True P1)
    have e1: "1 \<le> e + 1" using b(1) by simp
    have n1: "(2 ^ 52 :: int) \<le> 2 ^ 52" and n2: "(2 ^ 52 :: int) < 2 ^ 53" by simp_all
    from e1 n1 n2 R2 lim show ?thesis
      by (intro exI [of _ "2 ^ 52 :: int"] exI [of _ "e + 1"] conjI)
  next
    case False
    with N2 have N3: "N < 2 ^ 53" by simp
    have "e \<noteq> 0"
    proof
      assume "e = 0"
      then have u1: "of_int (2 ^ 53) * u = 2" by (simp add: u_def)
      have "(of_int N :: rat) < of_int (2 ^ 53)" using N3 by (simp only: of_int_less_iff)
      then have "of_int N * u < of_int (2 ^ 53) * u"
        using u0 by (simp only: mult_less_cancel_right_pos)
      then have "R < 2" unfolding R' u1 .
      with r2 aR show False by simp
    qed
    with b(1) have e1: "1 \<le> e" by simp
    have R2: "\<bar>r\<bar> = of_int N * (2 powi e / 2 ^ 52)"
      unfolding aR R' u_def by (rule refl)
    from e1 N1 N3 R2 lim show ?thesis
      by (intro exI [of _ N] exI [of _ e] conjI)
  qed
qed

lemma repr_rounds:
  fixes q m :: rat and N e :: int
  assumes e: "1 \<le> e" and N: "2 ^ 52 \<le> N" "N < 2 ^ 53"
    and q: "q = of_int N * (2 powi e / 2 ^ 52)" and lim: "q < 2 ^ 1024"
    and near: "\<bar>m - q\<bar> * 2 ^ 54 < q"
  shows "fl neg m = Fin (if neg then - q else q)"
proof -
  have r: "round_mag m = q" by (rule round_mag_near [OF e N q near])
  have "(0::rat) < 2 powi e" by (simp add: zero_less_power_int)
  moreover have "(0::rat) < of_int N" using N(1) by simp
  ultimately have q0: "0 < q" unfolding q by simp
  have "m \<noteq> 0"
  proof
    assume "m = 0"
    with near q0 have "q * 2 ^ 54 < q" by simp
    with q0 show False by simp
  qed
  then show ?thesis
    using q0 lim by (simp add: fl_def r pow2_def Let_def)
qed

lemma repr_large_integer:
  fixes q :: rat and N e :: int
  assumes N: "2 ^ 52 \<le> N" "N < 2 ^ 53"
    and q: "q = of_int N * (2 powi e / 2 ^ 52)" and big: "10 ^ 21 \<le> q"
  shows "\<exists>n::nat. q = of_nat n"
proof -
  have N0: "(0::rat) < of_int N" using N(1) by simp
  have "(of_int N :: rat) < of_int (2 ^ 53)" using N(2) by (simp only: of_int_less_iff)
  then have N2: "(of_int N :: rat) < 2 ^ 53" by simp
  have P0: "(0::rat) < 2 powi e" by (simp add: zero_less_power_int)
  have "(2::rat) powi 52 < 2 powi e"
  proof (rule ccontr)
    assume "\<not> (2::rat) powi 52 < 2 powi e"
    then have "(2::rat) powi e / 2 ^ 52 \<le> 1" by simp
    then have "(of_int N :: rat) * (2 powi e / 2 ^ 52) \<le> of_int N * 1"
      using N0 by (simp only: mult_le_cancel_left_pos)
    with N2 have "q < 2 ^ 53" by (simp add: q)
    with big show False by simp
  qed
  then have "52 < e"
    using power_int_increasing [of e 52 "2::rat"] by (cases "e \<le> 52") simp_all
  define d where "d = nat (e - 52)"
  have ed: "e = int d + 52" using \<open>52 < e\<close> by (simp add: d_def)
  have "(2::rat) powi e = 2 powi (int d) * 2 powi 52"
    unfolding ed by (rule power_int_add) simp
  also have "\<dots> = 2 ^ d * 2 ^ 52"
    by (simp only: power_int_of_nat power_int_numeral)
  finally have "(2::rat) powi e / 2 ^ 52 = 2 ^ d" by simp
  moreover have "(of_int N :: rat) = of_nat (nat N)" using N(1) by simp
  ultimately have "q = of_nat (nat N) * 2 ^ d"
    by (simp only: q)
  then have "q = of_nat (nat N * 2 ^ d)"
    by (simp only: of_nat_mult of_nat_power of_nat_numeral)
  then show ?thesis ..
qed

subsection \<open>Seventeen digits\<close>

lemma declen_lower: "0 < n \<Longrightarrow> 10 ^ (declen n - 1) \<le> n"
proof (induction n rule: declen.induct)
  case (1 n)
  show ?case
  proof (cases "n div 10 = 0")
    case True
    then have "declen n = 1"
      using 1(2) by (simp add: declen.simps [of n] declen.simps [of 0])
    with 1(2) show ?thesis by simp
  next
    case False
    then have pos: "0 < n div 10" by simp
    with 1 have ih: "10 ^ (declen (n div 10) - 1) \<le> n div 10" by simp
    have "0 < declen (n div 10)" using pos by (simp add: declen.simps [of "n div 10"])
    then have "declen n - 1 = Suc (declen (n div 10) - 1)"
      using 1(2) by (simp add: declen.simps [of n])
    with ih show ?thesis by simp
  qed
qed

lemma ilog10_power_le:
  assumes "1 \<le> q"
  shows "10 ^ nat (ilog10 q) \<le> q"
proof -
  define m where "m = nat \<lfloor>q\<rfloor>"
  have m0: "0 < m" using assms by (simp add: m_def)
  have "0 < declen m" using m0 by (simp add: declen.simps [of m])
  then have il: "nat (ilog10 q) = declen m - 1"
    using assms by (simp add: ilog10_def m_def)
  have "0 \<le> \<lfloor>q\<rfloor>" using assms by simp
  then have km: "of_nat m = (of_int \<lfloor>q\<rfloor> :: rat)" by (simp add: m_def)
  have "(of_nat (10 ^ (declen m - 1)) :: rat) \<le> of_nat m"
    using declen_lower [OF m0] by (simp only: of_nat_le_iff)
  also have "\<dots> \<le> q" by (simp add: km)
  finally show ?thesis by (simp add: il)
qed

lemma nat_digits_upper: "n < 10 ^ length (nat_digits n)"
proof (induction n rule: nat_digits.induct)
  case (1 n)
  show ?case
  proof (cases "n < 10")
    case True
    then show ?thesis by (simp add: nat_digits.simps [of n])
  next
    case False
    with 1 have "n div 10 < 10 ^ length (nat_digits (n div 10))" by simp
    then have "n < 10 * 10 ^ length (nat_digits (n div 10))" by linarith
    with False show ?thesis by (simp add: nat_digits.simps [of n])
  qed
qed

lemma nat_digits_length_eq:
  assumes "10 ^ (k - 1) \<le> s" "s < 10 ^ k" "0 < k"
  shows "length (nat_digits s) = k"
proof -
  have "(10::nat) ^ (k - 1) < 10 ^ length (nat_digits s)"
    using assms(1) nat_digits_upper [of s] by linarith
  then have "k - 1 < length (nat_digits s)" by simp
  moreover have "length (nat_digits s) \<le> k" by (rule nat_digits_length [OF assms(2,3)])
  ultimately show ?thesis by linarith
qed

text \<open>What \<open>digits_at\<close> returns is a decimal of \<open>k\<close> digits that rounds to the Number.\<close>

lemma digits_at_value:
  assumes q: "(10::rat) ^ 21 \<le> q" and k: "1 \<le> k" "k \<le> 17"
    and d: "digits_at q k = Some (s, n)"
  shows "22 \<le> n" "10 ^ (k - 1) \<le> s" "s < 10 ^ k"
    "fl False (of_nat s * 10 ^ nat (n - int k)) = Fin q"
proof -
  have q1: "1 \<le> q"
    using q by (meson one_le_numeral one_le_power order_trans)
  have lo21: "21 \<le> ilog10 q" using ilog10_lower [OF q] by simp
  define j where "j = nat (ilog10 q + 1 - int k)"
  have il: "nat (ilog10 q) = j + (k - 1)" using lo21 k by (simp add: j_def)
  have nj: "nat (ilog10 q + 1 - int k) = j" "nat (ilog10 q + 1 + 1 - int k) = Suc j"
    using lo21 k by (simp_all add: j_def)
  have p: "pow10 (ilog10 q + 1 - int k) = 10 ^ j"
    using lo21 k by (simp add: pow10_def j_def)
  define lo where "lo = nat \<lfloor>q / 10 ^ j\<rfloor>"
  have b: "lo < 10 ^ k"
    using leading_digits_bound [OF q k(2)] by (simp add: p lo_def)
  have lb: "10 ^ (k - 1) \<le> lo"
  proof -
    have "(10::rat) ^ (k - 1) * 10 ^ j \<le> q"
      using ilog10_power_le [OF q1] by (simp add: il power_add mult.commute)
    then have "(10::rat) ^ (k - 1) \<le> q / 10 ^ j"
      by (simp add: le_divide_eq)
    then have "of_int (10 ^ (k - 1)) \<le> q / 10 ^ j" by simp
    then have "(10::int) ^ (k - 1) \<le> \<lfloor>q / 10 ^ j\<rfloor>" by (simp only: le_floor_iff)
    then show ?thesis by (simp add: lo_def le_nat_iff)
  qed
  define A where "A \<longleftrightarrow>
    fl False (of_nat lo * 10 ^ j) = Fin q \<and>
    (if fl False (of_nat (lo + 1) * 10 ^ j) = Fin q
     then q - of_nat lo * 10 ^ j < of_nat (lo + 1) * 10 ^ j - q \<or>
          q - of_nat lo * 10 ^ j = of_nat (lo + 1) * 10 ^ j - q \<and> even lo
     else True)"
  define B where "B \<longleftrightarrow> fl False (of_nat (lo + 1) * 10 ^ j) = Fin q"
  have eq: "digits_at q k =
      (if A then Some (lo, ilog10 q + 1)
       else if B then Some (if lo + 1 = 10 ^ k then (10 ^ (k - 1), ilog10 q + 1 + 1)
                            else (lo + 1, ilog10 q + 1))
       else None)"
    unfolding digits_at_def Let_def A_def B_def lo_def p by (rule refl)
  from d [unfolded eq] consider
      (c_lo) "A" "s = lo" "n = ilog10 q + 1"
    | (c_hi) "B" "s = lo + 1" "s \<noteq> 10 ^ k" "n = ilog10 q + 1"
    | (c_up) "B" "lo + 1 = 10 ^ k" "s = 10 ^ (k - 1)" "n = ilog10 q + 1 + 1"
    by (auto split: if_splits)
  then have "22 \<le> n \<and> 10 ^ (k - 1) \<le> s \<and> s < 10 ^ k \<and>
    fl False (of_nat s * 10 ^ nat (n - int k)) = Fin q"
  proof cases
    case c_lo
    from c_lo(1) have "fl False (of_nat lo * 10 ^ j) = Fin q" by (simp add: A_def)
    with c_lo b lb lo21 show ?thesis by (simp add: nj)
  next
    case c_hi
    from c_hi(1) have "fl False (of_nat (lo + 1) * 10 ^ j) = Fin q" by (simp add: B_def)
    moreover have "s < 10 ^ k" using c_hi b by simp
    moreover have "10 ^ (k - 1) \<le> s" using c_hi lb by simp
    ultimately show ?thesis using c_hi lo21 by (simp add: nj)
  next
    case c_up
    from c_up(1) have "fl False (of_nat (lo + 1) * 10 ^ j) = Fin q" by (simp add: B_def)
    then have "fl False (of_nat (10 ^ k) * 10 ^ j) = Fin q" by (simp only: c_up(2))
    moreover have "(of_nat (10 ^ k) :: rat) * 10 ^ j = of_nat (10 ^ (k - 1)) * 10 ^ Suc j"
    proof -
      have "k = Suc (k - 1)" using k(1) by simp
      then have "(10::rat) ^ k = 10 ^ (k - 1) * 10" by (metis power_Suc2)
      then show ?thesis by simp
    qed
    ultimately have v: "fl False (of_nat (10 ^ (k - 1)) * 10 ^ Suc j) = Fin q"
      by (simp only:)
    have nn: "nat (n - int k) = Suc j" using c_up(4) nj(2) by simp
    have c1: "22 \<le> n" using c_up(4) lo21 by simp
    have c2: "10 ^ (k - 1) \<le> s" using c_up(3) by simp
    have c3: "s < 10 ^ k"
      unfolding c_up(3) using k(1) by (intro power_strict_increasing) simp_all
    have c4: "fl False (of_nat s * 10 ^ nat (n - int k)) = Fin q"
      unfolding nn c_up(3) by (rule v)
    from c1 c2 c3 c4 show ?thesis by (intro conjI)
  qed
  then show "22 \<le> n" "10 ^ (k - 1) \<le> s" "s < 10 ^ k"
    "fl False (of_nat s * 10 ^ nat (n - int k)) = Fin q"
    by blast+
qed

text \<open>
  Seventeen digits are enough for a binary64 value: the decimals of seventeen digits lie
  closer together than half the distance between two binary64 values, because
  \<open>2 ^ 53 < 10 ^ 16\<close>.
\<close>

lemma digits_at_17:
  fixes q :: rat and N e :: int
  assumes e: "1 \<le> e" and N: "2 ^ 52 \<le> N" "N < 2 ^ 53"
    and qr: "q = of_int N * (2 powi e / 2 ^ 52)" and lim: "q < 2 ^ 1024"
    and q: "10 ^ 21 \<le> q"
  shows "digits_at q 17 \<noteq> None"
proof -
  have q1: "1 \<le> q"
    using q by (meson one_le_numeral one_le_power order_trans)
  have q0: "0 < q" using q1 by simp
  have lo21: "21 \<le> ilog10 q" using ilog10_lower [OF q] by simp
  define j where "j = nat (ilog10 q + 1 - int 17)"
  have il: "nat (ilog10 q) = j + 16" using lo21 by (simp add: j_def)
  have p: "pow10 (ilog10 q + 1 - int 17) = 10 ^ j"
    using lo21 by (simp add: pow10_def j_def)
  define U :: rat where "U = 10 ^ j"
  have U0: "0 < U" by (simp add: U_def)
  define lo where "lo = nat \<lfloor>q / U\<rfloor>"
  have "0 \<le> \<lfloor>q / U\<rfloor>" using q0 U0 by simp
  then have lof: "(of_nat lo :: rat) = of_int \<lfloor>q / U\<rfloor>" by (simp add: lo_def)
  have "of_nat lo \<le> q / U" "q / U < of_nat lo + 1"
    unfolding lof by linarith+
  then have l1: "of_nat lo * U \<le> q" and l2: "q < (of_nat lo + 1) * U"
    using U0 by (simp_all add: le_divide_eq divide_less_eq)
  have U16: "10 ^ 16 * U \<le> q"
    using ilog10_power_le [OF q1] by (simp add: il U_def power_add mult.commute)
  have near: "\<bar>m - q\<bar> * 2 ^ 54 < q" if "\<bar>m - q\<bar> \<le> U / 2" for m
  proof -
    have "\<bar>m - q\<bar> * 2 ^ 54 \<le> U / 2 * 2 ^ 54" using that by simp
    also have "\<dots> < 10 ^ 16 * U" using U0 by simp
    finally show ?thesis using U16 by linarith
  qed
  have rounds: "fl False m = Fin q" if "\<bar>m - q\<bar> \<le> U / 2" for m
    using repr_rounds [OF e N qr lim near [OF that], of False] by simp
  define ok_lo where "ok_lo \<longleftrightarrow> fl False (of_nat lo * U) = Fin q"
  define ok_hi where "ok_hi \<longleftrightarrow> fl False (of_nat (lo + 1) * U) = Fin q"
  have some: "ok_lo \<or> ok_hi"
  proof (cases "q - of_nat lo * U \<le> U / 2")
    case True
    with l1 have "\<bar>of_nat lo * U - q\<bar> \<le> U / 2" by simp
    then show ?thesis unfolding ok_lo_def by (intro disjI1 rounds)
  next
    case False
    have "(of_nat (lo + 1) :: rat) * U = of_nat lo * U + U" by (simp add: algebra_simps)
    with False l2 have "\<bar>of_nat (lo + 1) * U - q\<bar> \<le> U / 2"
      by (simp add: algebra_simps)
    then show ?thesis unfolding ok_hi_def by (intro disjI2 rounds)
  qed
  define c where "c \<longleftrightarrow> q - of_nat lo * U < of_nat (lo + 1) * U - q \<or>
          q - of_nat lo * U = of_nat (lo + 1) * U - q \<and> even lo"
  have eq: "digits_at q 17 =
      (if ok_lo \<and> (if ok_hi then c else True) then Some (lo, ilog10 q + 1)
       else if ok_hi then Some (if lo + 1 = 10 ^ 17 then (10 ^ (17 - 1), ilog10 q + 1 + 1)
                            else (lo + 1, ilog10 q + 1))
       else None)"
    unfolding digits_at_def Let_def ok_lo_def ok_hi_def c_def lo_def p U_def by (rule refl)
  show ?thesis
    unfolding eq using some by (cases ok_lo; cases ok_hi; cases c) simp_all
qed

lemma parseFloat_format_exact:
  assumes n: "22 \<le> n" and k: "0 < k" "k \<le> 17"
    and s: "10 ^ (k - 1) \<le> s" "s < 10 ^ k"
  shows "parseFloat (format_digits s n) = fl False (of_nat s * 10 ^ nat (n - int k))"
    and "parseFloat (CHR ''-'' # format_digits s n) = fl True (of_nat s * 10 ^ nat (n - int k))"
proof -
  define ds where "ds = nat_digits s"
  define ed where "ed = nat_digits (nat (n - 1))"
  have dd: "\<forall>c\<in>set ds. is_digit c" and dne: "ds \<noteq> []" and dv: "digits_val ds = s"
    by (simp_all add: ds_def nat_digits_all_digits nat_digits_nonempty digits_val_nat_digits)
  have ee: "\<forall>c\<in>set ed. is_digit c" and ene: "ed \<noteq> []"
    and ev: "digits_val ed = nat (n - 1)"
    by (simp_all add: ed_def nat_digits_all_digits nat_digits_nonempty digits_val_nat_digits)
  have len: "length ds = k"
    unfolding ds_def by (rule nat_digits_length_eq [OF s k(1)])
  have fmt: "format_digits s n =
      (if length ds = 1 then ds @ CHR ''e'' # CHR ''+'' # ed
       else take 1 ds @ CHR ''.'' # drop 1 ds @ CHR ''e'' # CHR ''+'' # ed)"
    using n by (simp add: format_digits_def ds_def ed_def Let_def)
  have pe: "parseFloat (format_digits s n) = fl False (of_nat s * 10 ^ nat (n - int k)) \<and>
    parseFloat (CHR ''-'' # format_digits s n) = fl True (of_nat s * 10 ^ nat (n - int k))"
  proof (cases "length ds = 1")
    case True
    have p: "pow10 (int (nat (n - 1))) = 10 ^ nat (n - int k)"
      using n len True by (simp add: pow10_def)
    have b0: "\<forall>c\<in>set []. is_digit c" by simp
    note pos1 = parseFloat_exponent(1) [OF dd dne b0 ee ene]
    note neg1 = parseFloat_exponent(2) [OF dd dne b0 ee ene]
    have f1: "format_digits s n = ds @ CHR ''e'' # CHR ''+'' # ed"
      using True fmt by simp
    show ?thesis
      unfolding f1 by (simp only: pos1 neg1 dv ev p simp_thms)
  next
    case False
    let ?a = "take 1 ds" and ?b = "drop 1 ds"
    have a: "\<forall>c\<in>set ?a. is_digit c" using dd by (meson in_set_takeD)
    have b: "\<forall>c\<in>set ?b. is_digit c" using dd by (meson in_set_dropD)
    have ane: "?a \<noteq> []" using dne by simp
    have ab: "?a @ ?b = ds" by simp
    have lb: "length ?b = k - 1" using len by simp
    have p: "pow10 (int (nat (n - 1)) - int (length ?b)) = 10 ^ nat (n - int k)"
    proof -
      have lbi: "int (length ?b) = int k - 1" using len k(1) by (simp add: of_nat_diff)
      have "int (nat (n - 1)) - int (length ?b) = n - int k"
        unfolding lbi using n by simp
      moreover have "0 \<le> n - int k" using n k by simp
      ultimately show ?thesis by (simp add: pow10_def)
    qed
    have pos: "parseFloat (?a @ CHR ''.'' # ?b @ CHR ''e'' # CHR ''+'' # ed) =
        fl False (of_nat (digits_val ds) * pow10 (int (digits_val ed) - int (length ?b)))"
      using parseFloat_exponent(3) [OF a ane b ee ene] unfolding ab .
    have neg: "parseFloat (CHR ''-'' # ?a @ CHR ''.'' # ?b @ CHR ''e'' # CHR ''+'' # ed) =
        fl True (of_nat (digits_val ds) * pow10 (int (digits_val ed) - int (length ?b)))"
      using parseFloat_exponent(4) [OF a ane b ee ene] unfolding ab .
    have f2: "format_digits s n = ?a @ CHR ''.'' # ?b @ CHR ''e'' # CHR ''+'' # ed"
      using False fmt by simp
    show ?thesis
      unfolding f2 by (simp only: pos neg dv ev p simp_thms)
  qed
  then show "parseFloat (format_digits s n) = fl False (of_nat s * 10 ^ nat (n - int k))"
    and "parseFloat (CHR ''-'' # format_digits s n) = fl True (of_nat s * 10 ^ nat (n - int k))"
    by blast+
qed

lemma fl_negative: "fl False m = Fin q \<Longrightarrow> q \<noteq> 0 \<Longrightarrow> fl True m = Fin (- q)"
  by (auto simp: fl_def js_zero_def js_inf_def Let_def split: if_splits)

lemma first_some_None: "first_some f xs = None \<Longrightarrow> x \<in> set xs \<Longrightarrow> f x = None"
  by (induction xs) (auto split: option.splits)

text \<open>A binary64 value of magnitude \<open>10 ^ 21\<close> or more is read back from its digits.\<close>

lemma parseFloat_number_roundtrip:
  fixes q :: rat and N e :: int
  assumes e: "1 \<le> e" and N: "2 ^ 52 \<le> N" "N < 2 ^ 53"
    and qr: "q = of_int N * (2 powi e / 2 ^ 52)" and lim: "q < 2 ^ 1024"
    and q: "10 ^ 21 \<le> q"
  shows "parseFloat (number_to_string (Fin q)) = Fin q"
    and "parseFloat (CHR ''-'' # number_to_string (Fin q)) = Fin (- q)"
proof -
  have q0: "0 < q" using q by (meson less_le_trans zero_less_numeral zero_less_power)
  obtain s n where sn: "shortest_digits q = (s, n)" by (cases "shortest_digits q")
  have "first_some (digits_at q) [1 ..< 18] \<noteq> None"
  proof
    assume "first_some (digits_at q) [1 ..< 18] = None"
    then have "digits_at q 17 = None" by (rule first_some_None) simp
    with digits_at_17 [OF e N qr lim q] show False by simp
  qed
  then obtain r where r: "first_some (digits_at q) [1 ..< 18] = Some r" by blast
  with sn have rs: "r = (s, n)" by (simp add: shortest_digits_def)
  from first_some_Some [OF r] obtain k where "k \<in> set [1 ..< 18]" "digits_at q k = Some r"
    by blast
  then have k: "1 \<le> k" "k \<le> 17" and d: "digits_at q k = Some (s, n)"
    using rs by auto
  note v = digits_at_value [OF q k d]
  have k0: "0 < k" using k(1) by simp
  note pf = parseFloat_format_exact [OF v(1) k0 k(2) v(2) v(3)]
  have ns: "number_to_string (Fin q) = format_digits s n"
    using q0 sn by simp
  show "parseFloat (number_to_string (Fin q)) = Fin q"
    unfolding ns pf(1) by (rule v(4))
  show "parseFloat (CHR ''-'' # number_to_string (Fin q)) = Fin (- q)"
    unfolding ns pf(2) using v(4) q0 by (intro fl_negative) simp_all
qed

lemma js_div_repr:
  fixes q :: rat
  assumes d: "js_div a b = Fin q" and q2: "2 \<le> \<bar>q\<bar>"
  shows "\<exists>(N::int) e::int. 1 \<le> e \<and> 2 ^ 52 \<le> N \<and> N < 2 ^ 53 \<and>
           \<bar>q\<bar> = of_int N * (2 powi e / 2 ^ 52) \<and> \<bar>q\<bar> < 2 ^ 1024"
proof -
  define m where "m = mag a / mag b"
  have "0 \<le> mag a" "0 \<le> mag b" by (cases a; simp)+ (cases b; simp)
  then have m0: "0 \<le> m" by (simp add: m_def)
  from d q2 have f: "fl (is_neg a \<noteq> is_neg b) m = Fin q"
    by (auto simp: js_div_def m_def js_inf_def js_zero_def split: if_splits)
  have "m \<noteq> 0"
  proof
    assume "m = 0"
    with f have "js_zero (is_neg a \<noteq> is_neg b) = Fin q" by (simp add: fl_zero)
    with q2 show False by (auto simp: js_zero_def split: if_splits)
  qed
  with m0 have "0 < m" by simp
  from fl_repr [OF f this q2] show ?thesis .
qed

lemma fraction_digits:
  assumes "toIntegerOrInfinity P = Some f" "0 \<le> f"
  shows "nat \<lfloor>fin_val P\<rfloor> = nat f"
proof (cases P)
  case (Fin q)
  show ?thesis
  proof (cases "0 \<le> q")
    case True
    with assms Fin show ?thesis by simp
  next
    case False
    then have 1: "\<lfloor>q\<rfloor> < 0" by simp
    have 2: "0 \<le> \<lfloor>- q\<rfloor>" using False by simp
    from assms Fin False have "f = - \<lfloor>- q\<rfloor>" by simp
    with 2 assms(2) have "f = 0" by linarith
    with 1 Fin show ?thesis by simp
  qed
qed (insert assms, simp_all)

subsection \<open>The rounding of the scaling branch\<close>

text \<open>A quotient of magnitude \<open>10 ^ 21\<close> or more is an integer, and is returned as it is.\<close>

lemma convertValue_large:
  fixes q :: rat
  assumes cv: "convertValue this v = Inr r"
    and d: "js_div v (baseSize this) = Fin q" and big: "10 ^ 21 \<le> \<bar>q\<bar>"
  shows "r = Fin q" and "\<exists>n::nat. \<bar>q\<bar> = of_nat n" and "fl (q < 0) \<bar>q\<bar> = Fin q"
proof -
  have q2: "2 \<le> \<bar>q\<bar>" using big by simp
  from js_div_repr [OF d q2] obtain N e :: int where
    e: "1 \<le> e" and N: "2 ^ 52 \<le> N" "N < 2 ^ 53"
    and qr: "\<bar>q\<bar> = of_int N * (2 powi e / 2 ^ 52)" and lim: "\<bar>q\<bar> < 2 ^ 1024"
    by blast
  note rt = parseFloat_number_roundtrip [OF e N qr lim big]
  define ns where "ns = number_to_string (Fin \<bar>q\<bar>)"
  have p21: "pow10 21 = 10 ^ 21" by (simp add: pow10_def)
  have r': "r = parseFloat ((if q < 0 then ''-'' else []) @ ns)"
    using cv big
    by (auto simp: convertValue_def toFixed_def d p21 ns_def
        simp del: number_to_string.simps split: option.splits if_splits)
  show "r = Fin q"
    using rt [folded ns_def] by (cases "q < 0") (simp_all add: r')
  show "\<exists>n::nat. \<bar>q\<bar> = of_nat n"
    by (rule repr_large_integer [OF N qr big])
  have "fl (q < 0) \<bar>q\<bar> = Fin (if q < 0 then - \<bar>q\<bar> else \<bar>q\<bar>)"
  proof (rule repr_rounds [OF e N qr lim])
    show "\<bar>\<bar>q\<bar> - \<bar>q\<bar>\<bar> * 2 ^ 54 < \<bar>q\<bar>" using q2 by simp
  qed
  then show "fl (q < 0) \<bar>q\<bar> = Fin q" by simp
qed

text \<open>
  The scaling branch returns the Number nearest to the quotient rounded half away from zero
  to the configured number of fractional digits, whatever the magnitude of the quotient.
\<close>

lemma convertValue_finite:
  fixes q :: rat
  assumes cv: "convertValue this v = Inr r"
    and p: "toIntegerOrInfinity (precision this) = Some p"
    and d: "js_div v (baseSize this) = Fin q"
  shows "r = fl (q < 0) (of_int \<lfloor>\<bar>q\<bar> * 10 ^ nat p + 1 / 2\<rfloor> / 10 ^ nat p)"
proof (cases "\<bar>q\<bar> < 10 ^ 21")
  case True
  from convertValue_result(2) [OF cv p d True] show ?thesis .
next
  case False
  then have big: "10 ^ 21 \<le> \<bar>q\<bar>" by simp
  note l = convertValue_large [OF cv d big]
  define f where "f = nat p"
  from l(2) obtain n :: nat where n: "\<bar>q\<bar> = of_nat n" by blast
  have "\<bar>q\<bar> * 10 ^ f + 1 / 2 = of_int (int (n * 10 ^ f)) + 1 / 2"
    by (simp add: n)
  moreover have "\<lfloor>of_int (int (n * 10 ^ f)) + (1 / 2 :: rat)\<rfloor> = int (n * 10 ^ f)"
    by (rule floor_unique) simp_all
  ultimately have "\<lfloor>\<bar>q\<bar> * 10 ^ f + 1 / 2\<rfloor> = int (n * 10 ^ f)"
    by (simp only:)
  then have "(of_int \<lfloor>\<bar>q\<bar> * 10 ^ f + 1 / 2\<rfloor> :: rat) / 10 ^ f = \<bar>q\<bar>"
    by (simp add: n)
  then have "fl (q < 0) (of_int \<lfloor>\<bar>q\<bar> * 10 ^ f + 1 / 2\<rfloor> / 10 ^ f) = Fin q"
    by (simp only: l(3))
  then show ?thesis
    unfolding f_def l(1) by (rule sym)
qed

text \<open>
  With a precision that \<open>toFixed\<close> accepts, the scaling branch is the rounding of the
  specification, for every value and every base size.
\<close>

lemma convertValue_exact:
  assumes ok: "fractionDigits_ok (precision this)"
  shows "convertValue this v =
    Inr (round_to_precision (js_div v (baseSize this)) (nat \<lfloor>fin_val (precision this)\<rfloor>))"
proof -
  define x where "x = js_div v (baseSize this)"
  from ok obtain p where p: "toIntegerOrInfinity (precision this) = Some p"
    and p0: "0 \<le> p" and p100: "p \<le> 100"
    by (auto simp: fractionDigits_ok_def split: option.splits)
  define f where "f = nat p"
  have fd: "nat \<lfloor>fin_val (precision this)\<rfloor> = f"
    unfolding f_def by (rule fraction_digits [OF p p0])
  obtain r where cv: "convertValue this v = Inr r"
    using p p0 p100 by (simp add: convertValue_def toFixed_def)
  have r: "r = parseFloat (case x of
        NaN \<Rightarrow> ''NaN''
      | PosInf \<Rightarrow> ''Infinity''
      | NegInf \<Rightarrow> ''-Infinity''
      | NegZero \<Rightarrow> fixed_digits 0 f
      | Fin q \<Rightarrow>
          (if q < 0 then ''-'' else []) @
          (if pow10 21 \<le> \<bar>q\<bar> then number_to_string (Fin \<bar>q\<bar>)
           else fixed_digits \<bar>q\<bar> f))"
    using cv p p0 p100 unfolding x_def f_def
    by (simp add: convertValue_def toFixed_def)
  have "r = round_to_precision x f"
  proof (cases x)
    case NaN
    then show ?thesis by (simp add: r round_to_precision_def parseFloat_special)
  next
    case PosInf
    then show ?thesis by (simp add: r round_to_precision_def parseFloat_special)
  next
    case NegInf
    then show ?thesis by (simp add: r round_to_precision_def parseFloat_special)
  next
    case NegZero
    have "\<lfloor>(1::rat) / 2\<rfloor> = 0" by (rule floor_unique) simp_all
    with NegZero show ?thesis
      by (simp add: r round_to_precision_def parseFloat_fixed_zero js_lt_def fl_zero
          js_zero_def)
  next
    case (Fin q)
    have lt: "js_lt (Fin q) (Fin 0) = (q < 0)" by (simp add: js_lt_def)
    have rp: "round_to_precision x f =
        fl (q < 0) (of_int \<lfloor>\<bar>q\<bar> * 10 ^ f + 1 / 2\<rfloor> / 10 ^ f)"
      by (simp add: Fin round_to_precision_def lt)
    from convertValue_finite [OF cv p Fin [unfolded x_def]]
    have "r = fl (q < 0) (of_int \<lfloor>\<bar>q\<bar> * 10 ^ f + 1 / 2\<rfloor> / 10 ^ f)"
      unfolding f_def .
    then show ?thesis by (simp only: rp)
  qed
  then show ?thesis
    unfolding cv x_def fd by simp
qed

text \<open>Rounding a Number that is a natural number leaves it as it is.\<close>

lemma round_to_precision_nat: "round_to_precision (Fin (of_nat n)) p = fl False (of_nat n)"
proof -
  have "\<lfloor>of_int (int (n * 10 ^ p)) + (1 / 2 :: rat)\<rfloor> = int (n * 10 ^ p)"
    by (rule floor_unique) simp_all
  moreover have "(of_nat n :: rat) * 10 ^ p + 1 / 2 = of_int (int (n * 10 ^ p)) + 1 / 2"
    by simp
  ultimately have "\<lfloor>(of_nat n :: rat) * 10 ^ p + 1 / 2\<rfloor> = int (n * 10 ^ p)"
    by (simp only:)
  then have "(of_int \<lfloor>(of_nat n :: rat) * 10 ^ p + 1 / 2\<rfloor> :: rat) / 10 ^ p = of_nat n"
    by simp
  then show ?thesis
    by (simp add: round_to_precision_def js_lt_def)
qed

subsection \<open>The source unit\<close>

lemma convertScalar_source_unit:
  assumes ok: "fractionDigits_ok (precision this)"
  shows "convertScalar this v (Some (unit this)) = Inr (scale_or_clamp_spec this v)"
proof -
  define s where "s = js_abs (js_mul v (minScaleFactor this))"
  define rv where "rv =
    round_to_precision (js_div v (baseSize this)) (nat \<lfloor>fin_val (precision this)\<rfloor>)"
  have cv: "convertValue this v = Inr rv"
    unfolding rv_def by (rule convertValue_exact [OF ok])
  have lhs: "convertScalar this v (Some (unit this)) =
      (if truthy s \<and> js_le s (minUnitSize this)
       then Inr (if js_lt (js_abs v) (minUnitSize this) then v
                 else js_mul (minUnitSize this) (if js_lt v (Fin 0) then Fin (- 1) else Fin 1),
                 Some (unit this))
       else Inr (rv, Some (riUnit this)))"
    by (simp add: convertScalar_def s_def cv Let_def)
  have rhs: "scale_or_clamp_spec this v =
      (if \<not> js_eq s (Fin 0) \<and> js_le s (minUnitSize this)
       then (if js_lt (js_abs v) (minUnitSize this) then (v, Some (unit this))
             else (js_mul (minUnitSize this) (js_sign v), Some (unit this)))
       else (rv, Some (riUnit this)))"
    by (simp add: scale_or_clamp_spec_def s_def rv_def Let_def)
  have cond: "(truthy s \<and> js_le s (minUnitSize this)) =
      (\<not> js_eq s (Fin 0) \<and> js_le s (minUnitSize this))"
    by (rule truthy_neq_zero)
  show ?thesis
  proof (cases "truthy s \<and> js_le s (minUnitSize this)")
    case True
    then have "truthy (js_abs (js_mul v (minScaleFactor this)))"
      by (simp add: s_def)
    then have nz: "v \<noteq> NaN" "\<not> is_zero v"
      using js_mul_zero_falsy js_mul_NaN_falsy by blast+
    have sg: "js_sign v = (if js_lt v (Fin 0) then Fin (- 1) else Fin 1)"
      by (rule js_sign_nonzero [OF nz])
    from True cond have c: "\<not> js_eq s (Fin 0) \<and> js_le s (minUnitSize this)"
      by blast
    show ?thesis
      unfolding lhs rhs if_P [OF True] if_P [OF c] sg by simp
  next
    case False
    with cond have c: "\<not> (\<not> js_eq s (Fin 0) \<and> js_le s (minUnitSize this))"
      by blast
    show ?thesis
      unfolding lhs rhs if_not_P [OF False] if_not_P [OF c] by (rule refl)
  qed
qed


text \<open>
  The string form: a token that ends with the source unit, and not with the absolute unit,
  is converted by the same rule, applied to the Number that \<open>parseFloat\<close> reads from it.
\<close>

lemma parseValueString_source_unit:
  assumes "tok \<noteq> []"
    and "slice_last (length (absoluteUnit this)) tok \<noteq> absoluteUnit this"
    and "slice_last (length (unit this)) tok = unit this"
    and ok: "fractionDigits_ok (precision this)"
  shows "parseValueString this (VStr tok) =
           (case scale_or_clamp_spec this (parseFloat tok) of
              (x, u) \<Rightarrow>
                Inr (VStr (number_to_string x @ (case u of None \<Rightarrow> [] | Some t \<Rightarrow> t))))"
proof -
  have "parseValueString this (VStr tok) =
           (case convertScalar this (parseFloat tok) (Some (unit this)) of
              Inl e \<Rightarrow> Inl e
            | Inr (x, u) \<Rightarrow>
                Inr (VStr (number_to_string x @ (case u of None \<Rightarrow> [] | Some t \<Rightarrow> t))))"
    using assms(1-3)
    by (simp add: parseValueString_def convertScalar_def Let_def split: sum.splits)
  then show ?thesis
    by (simp only: convertScalar_source_unit [OF ok] sum.case)
qed

subsection \<open>The absolute unit\<close>

text \<open>
  When the absolute unit differs from the source unit, a measurement in the absolute unit
  keeps its magnitude, whatever Number it is, and takes the source unit.
\<close>

lemma absolute_unit_distinct:
  "unit_of unitNode = Some (absoluteUnit this) \<Longrightarrow> absoluteUnit this \<noteq> unit this \<Longrightarrow>
   parseValueObject this v unitNode = Inr (v, Some (unit this))"
  by (simp add: parseValueObject_def convertScalar_def)

subsection \<open>Comma-separated strings\<close>

text \<open>
  When every comma-separated string of a value is non-empty and contains a token, the loop
  of \<open>processRuleNode\<close> converts each of them on its own and joins the results with a comma
  and a space (\<open>comma_group_segments\<close>). A result of \<open>parseString\<close> is never the empty
  string, so the separator is added from the second string on.
\<close>

lemma parseString_segment:
  "seg \<noteq> [] \<Longrightarrow> parseString this nodeValue (Some seg) = parseString this seg None"
  by (simp add: parseString_def)

lemma format_digits_nonempty: "format_digits s n \<noteq> []"
  by (simp add: format_digits_def Let_def nat_digits_nonempty)

lemma number_to_string_nonempty: "number_to_string x \<noteq> []"
  by (cases x) (simp_all add: format_digits_nonempty split: prod.splits)

lemma parseValueString_nonempty:
  "tok \<noteq> [] \<Longrightarrow> parseValueString this (VStr tok) = Inr r \<Longrightarrow> join_elem r \<noteq> []"
  by (auto simp: parseValueString_def Let_def number_to_string_nonempty
      split: if_splits sum.splits)

lemma match_at_positive: "match_at s = Some n \<Longrightarrow> 0 < n"
  by (auto simp: match_at_def alt1_def alt2_def Let_def split: option.splits if_splits)

lemma scan_tokens_nonempty: "t \<in> set (scan s) \<Longrightarrow> t \<noteq> []"
proof (induction s rule: scan.induct)
  case (1 s)
  show ?case
  proof (cases "s = []")
    case True
    with "1.prems" show ?thesis by (simp add: scan.simps)
  next
    case False
    show ?thesis
    proof (cases "match_at s")
      case None
      with False "1.prems" have "t \<in> set (scan (tl s))"
        by (simp add: scan.simps [of s])
      with False None "1.IH" show ?thesis by blast
    next
      case (Some n)
      with False "1.prems" have "t = take n s \<or> t \<in> set (scan (drop n s))"
        by (simp add: scan.simps [of s])
      then show ?thesis
      proof
        assume "t = take n s"
        with False match_at_positive [OF Some] show ?thesis by simp
      next
        assume "t \<in> set (scan (drop n s))"
        with False Some "1.IH" show ?thesis by blast
      qed
    qed
  qed
qed

lemma map_result_nonempty:
  "map_result (parseValueString this) (map VStr toks) = Inr rs \<Longrightarrow>
   \<forall>t \<in> set toks. t \<noteq> [] \<Longrightarrow> length rs = length toks \<and> (\<forall>r \<in> set rs. join_elem r \<noteq> [])"
proof (induction toks arbitrary: rs)
  case Nil
  then show ?case by simp
next
  case (Cons t toks)
  then show ?case
    by (auto simp: parseValueString_nonempty split: sum.splits)
qed

lemma join_nonempty: "xs \<noteq> [] \<Longrightarrow> hd xs \<noteq> [] \<Longrightarrow> join sep xs \<noteq> []"
  by (cases "(sep, xs)" rule: join.cases) simp_all

lemma parseString_nonempty:
  assumes "parseString this nodeValue stringValues = Inr (Some r)"
  shows "r \<noteq> []"
proof -
  define v where "v = (case stringValues of
                 None \<Rightarrow> nodeValue
               | Some s \<Rightarrow> if s \<noteq> [] then s else nodeValue)"
  from assms obtain rs where
    sc: "scan v \<noteq> []" and
    mr: "map_result (parseValueString this) (map VStr (scan v)) = Inr rs" and
    r: "r = join '' '' (map join_elem rs)"
    by (auto simp: parseString_def v_def [symmetric] regex_match_def
        split: if_splits sum.splits)
  from map_result_nonempty [OF mr] scan_tokens_nonempty
  have "length rs = length (scan v)" and "\<forall>x \<in> set rs. join_elem x \<noteq> []"
    by blast+
  with sc have "map join_elem rs \<noteq> []" and "hd (map join_elem rs) \<noteq> []"
    by (cases rs; simp)+
  then show ?thesis
    unfolding r by (rule join_nonempty)
qed

lemma csv_loop_join:
  assumes "list_all2 (\<lambda>seg r. seg \<noteq> [] \<and> parseString this seg None = Inr (Some r)) segs rs"
  shows "csv_loop this s acc segs =
     Inr (acc @ (if acc \<noteq> [] \<and> rs \<noteq> [] then '', '' else []) @ join '', '' rs)"
  using assms
proof (induction segs rs arbitrary: acc rule: list_all2_induct)
  case Nil
  show ?case by simp
next
  case (Cons seg segs r rs)
  from Cons.hyps(1) have ps: "parseString this s (Some seg) = Inr (Some r)"
    by (simp add: parseString_segment)
  from Cons.hyps(1) have ne: "r \<noteq> []"
    using parseString_nonempty by blast
  show ?case
    using ne by (cases rs) (simp_all add: ps Cons.IH)
qed

lemma split_on_nonempty: "split_on c s \<noteq> []"
  by (induction s) (simp_all split: list.splits)

lemma comma_group_segments:
  assumes "currentPropName this \<in> Some ` set csvProps"
    and "list_all2 (\<lambda>seg r. seg \<noteq> [] \<and> parseString this seg None = Inr (Some r))
           (split_on (CHR '','') s) rs"
  shows "processRuleNode this (RVal (VStr s)) = Inr (RVal (VStr (join '', '' rs)))"
proof -
  from assms(2) split_on_nonempty [of "CHR '',''" s] obtain r rs' where rs: "rs = r # rs'"
    by (cases rs) auto
  with assms(2) have "r \<noteq> []"
    using parseString_nonempty by (auto simp: list_all2_Cons2)
  then have "join '', '' rs \<noteq> []"
    unfolding rs by (intro join_nonempty) simp_all
  then show ?thesis
    using assms(1) by (simp add: processString_def csv_loop_join [OF assms(2)])
qed

text \<open>The example of two groups of a \<open>background-position\<close>.\<close>

lemma comma_group_example:
  "visitDeclaration default_plugin
     (string_declaration ''background-position'' ''10px 20px, 5px 5px'') =
   Inr (default_plugin\<lparr>currentPropName := Some ''background-position''\<rparr>,
        string_declaration ''background-position''
          ''0.41667rem 0.83333rem, 0.20833rem 0.20833rem'')"
  by (simp add: string_declaration_def default_plugin_eq walk_eval cong: eval_cong)

section \<open>The claims\<close>

text \<open>
  C1, as stated: a measurement whose unit is the configured source unit is converted by
  the scale-or-clamp rule, for every value and every configuration. The rule of the
  specification always has a result. With a precision of 101 and the value 24 the rule
  gives 24 / 24 rounded, in the resolution-independent unit; the source throws a
  RangeError in its scaling branch.
\<close>

theorem scale_or_clamp_counterexample:
  "unit_of (unit_node ''px'') = Some (unit precision_101_plugin) \<and>
   scale_or_clamp_spec precision_101_plugin (Fin 24) = (Fin 1, Some ''rem'') \<and>
   parseValueObject precision_101_plugin (Fin 24) (unit_node ''px'') = Inl RangeError \<and>
   parseValueObject precision_101_plugin (Fin 24) (unit_node ''px'') \<noteq>
     Inr (scale_or_clamp_spec precision_101_plugin (Fin 24))"
proof -
  have d: "js_div (Fin 24) (Fin 24) = Fin 1"
    by (simp add: num_eval cong: eval_cong)
  have s: "\<not> (\<not> js_eq (js_abs (js_mul (Fin 24) (Fin (6004799503160661 / 9007199254740992))))
              (Fin 0) \<and>
            js_le (js_abs (js_mul (Fin 24) (Fin (6004799503160661 / 9007199254740992))))
              (Fin 1))"
    by (simp add: js_eq_def num_eval cong: eval_cong)
  have "fl False 1 = Fin 1"
    by (simp add: num_eval cong: eval_cong)
  then have r: "round_to_precision (Fin 1) 101 = Fin 1"
    using round_to_precision_nat [of 1 101] by simp
  have spec: "scale_or_clamp_spec precision_101_plugin (Fin 24) = (Fin 1, Some ''rem'')"
    unfolding scale_or_clamp_spec_def Let_def
    by (simp only: precision_101_plugin_eq plugin.simps s if_False d) (simp add: r)
  have code: "parseValueObject precision_101_plugin (Fin 24) (unit_node ''px'') =
      Inl RangeError"
    by (simp add: unit_of_unit_node precision_101_plugin_eq convert_eval cong: eval_cong)
  show ?thesis
    using spec code by (simp add: unit_of_unit_node precision_101_plugin_eq)
qed

text \<open>
  C1, amended: when the configured precision truncates to one of 0 .. 100, the range that
  \<open>toFixed\<close> accepts, \<open>parseValueObject\<close> returns what the rule of the specification gives,
  for every Number \<open>v\<close> (finite or not) and every base size, minimum and unit. The two
  differ in how they are written: the source tests the truthiness of the scaled magnitude
  and multiplies by \<open>value < 0 ? -1 : 1\<close>, the specification tests \<open>!= 0\<close> and multiplies by
  \<open>sign(value)\<close>; the source rounds by printing the quotient with \<open>toFixed\<close> and reading
  the digits back, the specification rounds half away from zero.
\<close>

theorem scale_or_clamp_refines:
  "unit_of unitNode = Some (unit this) \<Longrightarrow> fractionDigits_ok (precision this) \<Longrightarrow>
   parseValueObject this v unitNode = Inr (scale_or_clamp_spec this v)"
  by (simp add: parseValueObject_def convertScalar_source_unit)

text \<open>
  The rule under the default configuration: 10px is scaled to the Number nearest to
  0.41667, in rem; at 1.5px the scaled magnitude is at most 1, so the value is clamped to
  1px.
\<close>

theorem scale_or_clamp_refines_witness:
  "unit_of (unit_node ''px'') = Some (unit default_plugin) \<and>
   fractionDigits_ok (precision default_plugin) \<and>
   parseValueObject default_plugin (Fin 10) (unit_node ''px'') =
     Inr (scale_or_clamp_spec default_plugin (Fin 10)) \<and>
   scale_or_clamp_spec default_plugin (Fin 10) =
     (Fin (3753029713472929 / 9007199254740992), Some ''rem'') \<and>
   parseValueObject default_plugin (Fin (3 / 2)) (unit_node ''px'') =
     Inr (scale_or_clamp_spec default_plugin (Fin (3 / 2))) \<and>
   scale_or_clamp_spec default_plugin (Fin (3 / 2)) = (Fin 1, Some ''px'')"
proof -
  have h: "unit_of (unit_node ''px'') = Some (unit default_plugin)"
    by (simp add: unit_of_unit_node default_plugin_eq)
  have ok: "fractionDigits_ok (precision default_plugin)"
    by (simp add: default_plugin_eq fractionDigits_ok_def)
  have e1: "parseValueObject default_plugin (Fin 10) (unit_node ''px'') =
      Inr (Fin (3753029713472929 / 9007199254740992), Some ''rem'')"
    by (simp add: convert_eval unit_of_unit_node default_plugin_eq cong: eval_cong)
  have e2: "parseValueObject default_plugin (Fin (3 / 2)) (unit_node ''px'') =
      Inr (Fin 1, Some ''px'')"
    by (simp add: convert_eval unit_of_unit_node default_plugin_eq cong: eval_cong)
  note t1 = scale_or_clamp_refines [OF h ok, of "Fin 10"]
  note t2 = scale_or_clamp_refines [OF h ok, of "Fin (3 / 2)"]
  have s1: "scale_or_clamp_spec default_plugin (Fin 10) =
      (Fin (3753029713472929 / 9007199254740992), Some ''rem'')"
    using t1 e1 by simp
  have s2: "scale_or_clamp_spec default_plugin (Fin (3 / 2)) = (Fin 1, Some ''px'')"
    using t2 e2 by simp
  show ?thesis
    by (intro conjI) (fact h ok t1 s1 t2 s2)+
qed

text \<open>
  C5. A measurement in the absolute unit keeps its magnitude and takes the source unit:
  so the claim, and so \<open>parseValueString\<close>, which tests the absolute unit first. But
  \<open>parseValueObject\<close> tests the source unit first. For a configuration whose absolute unit
  is its source unit, 24px is scaled to 1rem by \<open>parseValueObject\<close>, while
  \<open>parseValueString\<close> returns the token 24px as it is. When the two units differ,
  \<open>parseValueObject\<close> does what the claim says (\<open>absolute_unit_distinct\<close>).
\<close>

theorem absolute_unit_tested_second:
  "unit_of (unit_node ''px'') = Some (absoluteUnit same_units_plugin) \<and>
   parseValueObject same_units_plugin (Fin 24) (unit_node ''px'') = Inr (Fin 1, Some ''rem'') \<and>
   parseValueObject same_units_plugin (Fin 24) (unit_node ''px'') \<noteq>
     Inr (Fin 24, Some (unit same_units_plugin)) \<and>
   parseValueString same_units_plugin (VStr ''24px'') = Inr (VStr ''24px'')"
proof -
  have e: "parseValueObject same_units_plugin (Fin 24) (unit_node ''px'') =
      Inr (Fin 1, Some ''rem'')"
    by (simp add: convert_eval unit_of_unit_node same_units_plugin_eq cong: eval_cong)
  have s: "parseValueString same_units_plugin (VStr ''24px'') = Inr (VStr ''24px'')"
    by (simp add: convert_eval same_units_plugin_eq cong: eval_cong)
  show ?thesis
    using e s by (simp add: unit_of_unit_node same_units_plugin_eq)
qed

text \<open>
  C7. A measurement whose unit is neither the source unit nor the absolute unit (also one
  without a unit symbol) is returned as it is, so converting the result again changes
  nothing.
\<close>

theorem other_unit_identity:
  "unit_of unitNode \<noteq> Some (unit this) \<Longrightarrow> unit_of unitNode \<noteq> Some (absoluteUnit this) \<Longrightarrow>
   parseValueObject this v unitNode = Inr (v, unit_of unitNode) \<and>
   convertScalar this v (unit_of unitNode) = Inr (v, unit_of unitNode) \<and>
   (case convertScalar this v (unit_of unitNode) of
      Inl e \<Rightarrow> Inl e
    | Inr (v', u') \<Rightarrow> convertScalar this v' u') = convertScalar this v (unit_of unitNode)"
  by (simp add: parseValueObject_def convertScalar_def)

theorem other_unit_identity_witness:
  "unit_of (unit_node ''rem'') \<noteq> Some (unit default_plugin) \<and>
   unit_of (unit_node ''rem'') \<noteq> Some (absoluteUnit default_plugin) \<and>
   parseValueObject default_plugin (Fin (5 / 12)) (unit_node ''rem'') =
     Inr (Fin (5 / 12), Some ''rem'') \<and>
   (case convertScalar default_plugin (Fin (5 / 12)) (unit_of (unit_node ''rem'')) of
      Inl e \<Rightarrow> Inl e
    | Inr (v', u') \<Rightarrow> convertScalar default_plugin v' u') =
     Inr (Fin (5 / 12), Some ''rem'')"
proof -
  have h1: "unit_of (unit_node ''rem'') \<noteq> Some (unit default_plugin)"
    by (simp add: unit_of_unit_node default_plugin_eq)
  have h2: "unit_of (unit_node ''rem'') \<noteq> Some (absoluteUnit default_plugin)"
    by (simp add: unit_of_unit_node default_plugin_eq)
  show ?thesis
    using h1 h2 other_unit_identity [OF h1 h2, of "Fin (5 / 12)"]
    by (simp add: unit_of_unit_node)
qed

text \<open>
  C8. After \<open>configure\<close>, each of the seven fields has the value the options supply for it,
  and its previous value when the options are absent or do not supply it; the name of the
  current property is untouched; \<open>minScaleFactor\<close> is the quotient of the new \<open>minSize\<close> and
  the new \<open>baseSize\<close>. A plugin constructed without options has the defaults 24, rem, px,
  apx, 1, 16 and 5.
\<close>

theorem configure_frame:
  "baseSize (configure this opts) =
     (case Option.bind opts opt_baseSize of None \<Rightarrow> baseSize this | Some x \<Rightarrow> x) \<and>
   riUnit (configure this opts) =
     (case Option.bind opts opt_riUnit of None \<Rightarrow> riUnit this | Some x \<Rightarrow> x) \<and>
   unit (configure this opts) =
     (case Option.bind opts opt_unit of None \<Rightarrow> unit this | Some x \<Rightarrow> x) \<and>
   absoluteUnit (configure this opts) =
     (case Option.bind opts opt_absoluteUnit of None \<Rightarrow> absoluteUnit this | Some x \<Rightarrow> x) \<and>
   minUnitSize (configure this opts) =
     (case Option.bind opts opt_minUnitSize of None \<Rightarrow> minUnitSize this | Some x \<Rightarrow> x) \<and>
   minSize (configure this opts) =
     (case Option.bind opts opt_minSize of None \<Rightarrow> minSize this | Some x \<Rightarrow> x) \<and>
   precision (configure this opts) =
     (case Option.bind opts opt_precision of None \<Rightarrow> precision this | Some x \<Rightarrow> x) \<and>
   currentPropName (configure this opts) = currentPropName this \<and>
   minScaleFactor (configure this opts) =
     js_div (minSize (configure this opts)) (baseSize (configure this opts)) \<and>
   baseSize (ResolutionIndependencePlugin None) = Fin 24 \<and>
   riUnit (ResolutionIndependencePlugin None) = ''rem'' \<and>
   unit (ResolutionIndependencePlugin None) = ''px'' \<and>
   absoluteUnit (ResolutionIndependencePlugin None) = ''apx'' \<and>
   minUnitSize (ResolutionIndependencePlugin None) = Fin 1 \<and>
   minSize (ResolutionIndependencePlugin None) = Fin 16 \<and>
   precision (ResolutionIndependencePlugin None) = Fin 5"
  by (simp add: configure_def supplied_def Let_def ResolutionIndependencePlugin_def prototype_def
      split: option.splits)

text \<open>
  C10. For a declaration whose inline flag is set, \<open>visitDeclaration\<close> returns without an
  error and leaves the declaration as it was, in every field; the plugin has recorded the
  property name.
\<close>

theorem inline_declaration_untouched:
  "inline node \<Longrightarrow>
   visitDeclaration this node = Inr (this\<lparr>currentPropName := Some (name node)\<rparr>, node)"
  by (simp add: visitDeclaration_def Let_def)

theorem inline_declaration_untouched_witness:
  "inline \<lparr>name = ''width'', node_value = RDim (Fin 24) (unit_node ''px''), inline = True\<rparr> \<and>
   visitDeclaration default_plugin
     \<lparr>name = ''width'', node_value = RDim (Fin 24) (unit_node ''px''), inline = True\<rparr> =
   Inr (default_plugin\<lparr>currentPropName := Some ''width''\<rparr>,
        \<lparr>name = ''width'', node_value = RDim (Fin 24) (unit_node ''px''), inline = True\<rparr>)"
  using inline_declaration_untouched
    [of "\<lparr>name = ''width'', node_value = RDim (Fin 24) (unit_node ''px''), inline = True\<rparr>"
        default_plugin]
  by simp

text \<open>
  C2. Under the default configuration the scan of \<open>10px solid red\<close> gives the three tokens
  in their order, and the tokenization rule returns \<open>0.41667rem solid red\<close>: 10 / 24 is
  formatted with five fractional digits, the other two tokens are returned as they are,
  and the results are joined by single spaces.
\<close>

theorem string_token_example:
  "regex_match ''10px solid red'' = Some [''10px'', ''solid'', ''red''] \<and>
   parseString (ResolutionIndependencePlugin None) ''10px solid red'' None =
     Inr (Some ''0.41667rem solid red'')"
  unfolding default_plugin_def [symmetric]
  by (simp add: default_plugin_eq walk_eval cong: eval_cong)

text \<open>
  C3. A string of the whole-text path in which the scan finds no token is left as it is
  (\<open>whole_text_no_tokens\<close>). On the comma-group path it is not: for the property
  \<open>background\<close> and a value of one space, the scan finds no token, \<open>parseString\<close> returns
  \<open>undefined\<close>, the loop appends it to the accumulated string, and the value becomes the
  text \<open>undefined\<close>.
\<close>

theorem no_tokens_comma_group:
  "regex_match '' '' = None \<and>
   visitDeclaration default_plugin (string_declaration ''background'' '' '') =
     Inr (default_plugin\<lparr>currentPropName := Some ''background''\<rparr>,
          string_declaration ''background'' ''undefined'')"
  by (simp add: string_declaration_def default_plugin_eq walk_eval cong: eval_cong)

text \<open>
  C4. The comma-separated strings of a value are converted independently and joined with
  a comma and a space when each of them is non-empty and contains a token
  (\<open>comma_group_segments\<close>, \<open>comma_group_example\<close>), but not always: an empty string is
  replaced by the whole value in \<open>parseString\<close>. For \<open>background\<close> and the value \<open>10px,\<close>
  the strings are \<open>10px\<close> and the empty string; the first converts to \<open>0.41667rem\<close>, and
  for the second the whole value \<open>10px,\<close> is scanned again and returned.
\<close>

theorem comma_group_empty_segment:
  "split_on (CHR '','') ''10px,'' = [''10px'', []] \<and>
   parseString default_plugin ''10px,'' (Some ''10px'') = Inr (Some ''0.41667rem'') \<and>
   parseString default_plugin ''10px,'' (Some []) = Inr (Some ''10px,'') \<and>
   visitDeclaration default_plugin (string_declaration ''background'' ''10px,'') =
     Inr (default_plugin\<lparr>currentPropName := Some ''background''\<rparr>,
          string_declaration ''background'' ''0.41667rem, 10px,'')"
  by (simp add: string_declaration_def default_plugin_eq walk_eval cong: eval_cong)

text \<open>
  C6, as stated: zero in the source unit always converts to zero in the
  resolution-independent unit. With a precision of 101 the formatting of the quotient
  throws a RangeError, so nothing is returned.
\<close>

theorem zero_counterexample:
  "unit_of (unit_node ''px'') = Some (unit precision_101_plugin) \<and>
   parseValueObject precision_101_plugin (Fin 0) (unit_node ''px'') = Inl RangeError \<and>
   parseValueObject precision_101_plugin (Fin 0) (unit_node ''px'') \<noteq>
     Inr (Fin 0, Some (riUnit precision_101_plugin))"
  by (simp add: unit_of_unit_node precision_101_plugin_eq convert_eval cong: eval_cong)

text \<open>
  C6, amended: zero in the source unit always takes the scaling branch, and the result is
  zero in the resolution-independent unit whenever \<open>baseSize\<close> is a Number other than zero
  and \<open>NaN\<close> and \<open>precision\<close> truncates to one of 0 .. 100, the range that \<open>toFixed\<close> accepts.
\<close>

theorem zero_takes_scaling_branch:
  "unit_of unitNode = Some (unit this) \<Longrightarrow>
   parseValueObject this (Fin 0) unitNode =
     (case convertValue this (Fin 0) of
        Inl e \<Rightarrow> Inl e
      | Inr r \<Rightarrow> Inr (r, Some (riUnit this))) \<and>
   (baseSize this \<noteq> NaN \<and> \<not> is_zero (baseSize this) \<and> fractionDigits_ok (precision this) \<longrightarrow>
    parseValueObject this (Fin 0) unitNode = Inr (Fin 0, Some (riUnit this)))"
proof -
  assume u: "unit_of unitNode = Some (unit this)"
  have nt: "\<not> truthy (js_abs (js_mul (Fin 0) (minScaleFactor this)))"
    by (rule js_mul_zero_falsy) simp
  have br: "parseValueObject this (Fin 0) unitNode =
     (case convertValue this (Fin 0) of
        Inl e \<Rightarrow> Inl e
      | Inr r \<Rightarrow> Inr (r, Some (riUnit this)))"
    using nt by (simp add: parseValueObject_def convertScalar_def u Let_def)
  show ?thesis
    using br convertValue_zero [of this] by simp
qed

theorem zero_takes_scaling_branch_witness:
  "unit_of (unit_node ''px'') = Some (unit default_plugin) \<and>
   baseSize default_plugin \<noteq> NaN \<and> \<not> is_zero (baseSize default_plugin) \<and>
   fractionDigits_ok (precision default_plugin) \<and>
   parseValueObject default_plugin (Fin 0) (unit_node ''px'') =
     Inr (Fin 0, Some (riUnit default_plugin))"
proof -
  have h: "unit_of (unit_node ''px'') = Some (unit default_plugin)"
    by (simp add: unit_of_unit_node default_plugin_eq)
  have c: "baseSize default_plugin \<noteq> NaN \<and> \<not> is_zero (baseSize default_plugin) \<and>
      fractionDigits_ok (precision default_plugin)"
    by (simp add: default_plugin_eq fractionDigits_ok_def)
  from zero_takes_scaling_branch [OF h] c
  have r: "parseValueObject default_plugin (Fin 0) (unit_node ''px'') =
      Inr (Fin 0, Some (riUnit default_plugin))"
    by blast
  show ?thesis
    using h c r by blast
qed

text \<open>
  C9, as stated: a clamped result keeps the magnitude of its input. Under the default
  configuration 1.5px is in the clamp branch and is returned as 1px.
\<close>

theorem clamp_changes_magnitude:
  "unit_of (unit_node ''px'') = Some (unit default_plugin) \<and>
   truthy (js_abs (js_mul (Fin (3 / 2)) (minScaleFactor default_plugin))) \<and>
   js_le (js_abs (js_mul (Fin (3 / 2)) (minScaleFactor default_plugin)))
     (minUnitSize default_plugin) \<and>
   parseValueObject default_plugin (Fin (3 / 2)) (unit_node ''px'') = Inr (Fin 1, Some ''px'') \<and>
   js_abs (Fin 1) \<noteq> js_abs (Fin (3 / 2))"
  by (simp add: unit_of_unit_node default_plugin_eq convert_eval cong: eval_cong)

text \<open>
  C9, amended. A value that the scaling branch returns is \<open>NaN\<close>, an infinity, or the
  Number nearest to a decimal \<open>N / 10 ^ p\<close> with \<open>p\<close> the truncated precision; when the
  quotient \<open>q\<close> of the value and the base size is finite, \<open>N\<close> is \<open>\<bar>q\<bar> * 10 ^ p\<close> rounded
  half up, with the sign of \<open>q\<close>. A result of the clamp branch
  is the input value when its magnitude is below \<open>minUnitSize\<close>, and \<open>minUnitSize\<close> times the
  sign otherwise; a measurement in a unit other than the source unit keeps its value.
  Neither is rounded to the precision.
\<close>

theorem precision_of_results:
  "(convertValue this v = Inr r \<and> toIntegerOrInfinity (precision this) = Some p \<longrightarrow>
      (r = NaN \<or> r = PosInf \<or> r = NegInf \<or> (\<exists>N neg. r = fl neg (of_nat N / 10 ^ nat p))) \<and>
      (\<forall>q. js_div v (baseSize this) = Fin q \<longrightarrow>
           r = fl (q < 0) (of_int \<lfloor>\<bar>q\<bar> * 10 ^ nat p + 1 / 2\<rfloor> / 10 ^ nat p))) \<and>
   (unit_of unitNode = Some (unit this) \<and>
    truthy (js_abs (js_mul w (minScaleFactor this))) \<and>
    js_le (js_abs (js_mul w (minScaleFactor this))) (minUnitSize this) \<longrightarrow>
      parseValueObject this w unitNode =
        Inr (if js_lt (js_abs w) (minUnitSize this) then w
             else js_mul (minUnitSize this) (if js_lt w (Fin 0) then Fin (- 1) else Fin 1),
             Some (unit this))) \<and>
   (unit_of unitNode' \<noteq> Some (unit this) \<longrightarrow>
      (\<exists>u. parseValueObject this x unitNode' = Inr (x, u)))"
proof (intro conjI impI allI)
  assume a: "convertValue this v = Inr r \<and> toIntegerOrInfinity (precision this) = Some p"
  then show "r = NaN \<or> r = PosInf \<or> r = NegInf \<or> (\<exists>N neg. r = fl neg (of_nat N / 10 ^ nat p))"
    using convertValue_result(1) by blast
  fix q
  assume "js_div v (baseSize this) = Fin q"
  with a show "r = fl (q < 0) (of_int \<lfloor>\<bar>q\<bar> * 10 ^ nat p + 1 / 2\<rfloor> / 10 ^ nat p)"
    using convertValue_finite by blast
next
  assume "unit_of unitNode = Some (unit this) \<and>
    truthy (js_abs (js_mul w (minScaleFactor this))) \<and>
    js_le (js_abs (js_mul w (minScaleFactor this))) (minUnitSize this)"
  then show "parseValueObject this w unitNode =
        Inr (if js_lt (js_abs w) (minUnitSize this) then w
             else js_mul (minUnitSize this) (if js_lt w (Fin 0) then Fin (- 1) else Fin 1),
             Some (unit this))"
    by (simp add: parseValueObject_def convertScalar_def Let_def)
next
  assume "unit_of unitNode' \<noteq> Some (unit this)"
  then show "\<exists>u. parseValueObject this x unitNode' = Inr (x, u)"
    by (simp add: parseValueObject_def convertScalar_def)
qed

theorem precision_of_results_witness:
  "convertValue default_plugin (Fin 10) = Inr (Fin (3753029713472929 / 9007199254740992)) \<and>
   toIntegerOrInfinity (precision default_plugin) = Some 5 \<and>
   js_div (Fin 10) (baseSize default_plugin) = Fin (7505999378950827 / 18014398509481984) \<and>
   Fin (3753029713472929 / 9007199254740992) =
     fl (7505999378950827 / 18014398509481984 < (0::rat))
        (of_int \<lfloor>\<bar>7505999378950827 / 18014398509481984 :: rat\<bar> * 10 ^ nat 5 + 1 / 2\<rfloor> /
         10 ^ nat 5) \<and>
   unit_of (unit_node ''px'') = Some (unit default_plugin) \<and>
   truthy (js_abs (js_mul (Fin (3 / 2)) (minScaleFactor default_plugin))) \<and>
   js_le (js_abs (js_mul (Fin (3 / 2)) (minScaleFactor default_plugin)))
     (minUnitSize default_plugin) \<and>
   parseValueObject default_plugin (Fin (3 / 2)) (unit_node ''px'') =
     Inr (if js_lt (js_abs (Fin (3 / 2))) (minUnitSize default_plugin) then Fin (3 / 2)
          else js_mul (minUnitSize default_plugin)
                 (if js_lt (Fin (3 / 2)) (Fin 0) then Fin (- 1) else Fin 1),
          Some (unit default_plugin)) \<and>
   unit_of (unit_node ''apx'') \<noteq> Some (unit default_plugin) \<and>
   (\<exists>u. parseValueObject default_plugin (Fin 10) (unit_node ''apx'') = Inr (Fin 10, u))"
proof -
  have a1: "convertValue default_plugin (Fin 10) =
      Inr (Fin (3753029713472929 / 9007199254740992))"
    by (simp add: default_plugin_eq convert_eval cong: eval_cong)
  have a2: "toIntegerOrInfinity (precision default_plugin) = Some 5"
    by (simp add: default_plugin_eq)
  have a3: "js_div (Fin 10) (baseSize default_plugin) =
      Fin (7505999378950827 / 18014398509481984)"
    by (simp add: default_plugin_eq num_eval cong: eval_cong)
  have b1: "unit_of (unit_node ''px'') = Some (unit default_plugin)"
    by (simp add: unit_of_unit_node default_plugin_eq)
  have b2: "truthy (js_abs (js_mul (Fin (3 / 2)) (minScaleFactor default_plugin)))"
    by (simp add: default_plugin_eq num_eval cong: eval_cong)
  have b3: "js_le (js_abs (js_mul (Fin (3 / 2)) (minScaleFactor default_plugin)))
      (minUnitSize default_plugin)"
    by (simp add: default_plugin_eq num_eval cong: eval_cong)
  have c1: "unit_of (unit_node ''apx'') \<noteq> Some (unit default_plugin)"
    by (simp add: unit_of_unit_node default_plugin_eq)
  note T = precision_of_results
    [where this = default_plugin and v = "Fin 10"
       and r = "Fin (3753029713472929 / 9007199254740992)" and p = 5
       and unitNode = "unit_node ''px''" and w = "Fin (3 / 2)"
       and unitNode' = "unit_node ''apx''" and x = "Fin 10"]
  from T a1 a2 a3 have r1: "Fin (3753029713472929 / 9007199254740992) =
     fl (7505999378950827 / 18014398509481984 < (0::rat))
        (of_int \<lfloor>\<bar>7505999378950827 / 18014398509481984 :: rat\<bar> * 10 ^ nat 5 + 1 / 2\<rfloor> /
         10 ^ nat 5)"
    by blast
  from T b1 b2 b3 have r2: "parseValueObject default_plugin (Fin (3 / 2)) (unit_node ''px'') =
     Inr (if js_lt (js_abs (Fin (3 / 2))) (minUnitSize default_plugin) then Fin (3 / 2)
          else js_mul (minUnitSize default_plugin)
                 (if js_lt (Fin (3 / 2)) (Fin 0) then Fin (- 1) else Fin 1),
          Some (unit default_plugin))"
    by blast
  from T c1 have r3: "\<exists>u. parseValueObject default_plugin (Fin 10) (unit_node ''apx'') =
      Inr (Fin 10, u)"
    by blast
  show ?thesis
    by (intro conjI) (fact a1 a2 a3 r1 b1 b2 b3 r2 c1 r3)+
qed

end
